theory Spec2Isabelle
  imports Main "HOL-Library.AList" "HOL-Library.Word"
begin

section \<open>The in-memory cache of src/memory.ts\<close>

text \<open>
  The class \<open>MemoryCache\<close> is embedded with explicit state passing: every method takes
  the cache record (and, where the source calls \<open>Date.now()\<close>, the current time
  \<open>now\<close>) and returns its result together with the updated record.

  A JavaScript \<open>Map\<close> iterates in insertion order, keeps the position of a key that is
  set again and has unique keys, so both maps of the class are association lists:
  \<open>Map.get\<close> is \<^const>\<open>map_of\<close>, \<open>Map.has k\<close> is \<open>map_of m k \<noteq> None\<close>,
  \<open>Map.set\<close> is \<^const>\<open>AList.update\<close>, \<open>Map.delete\<close> is \<^const>\<open>AList.delete\<close>,
  \<open>Map.size\<close> is \<^const>\<open>length\<close> and iteration is recursion over the list.
  Numbers are integers, and \<open>Infinity\<close> is the \<open>None\<close> of an option.
\<close>

subsection \<open>Strings\<close>

text \<open>
  A JavaScript string is a sequence of UTF-16 code units, and \<open>length\<close>, the
  regular expressions and the replacements of the source all work on code units.
  \<open>cu\<close> and \<open>js\<close> write an ASCII character and an ASCII literal as code units.
\<close>

type_synonym jschar = "16 word"

type_synonym jsstring = "jschar list"

abbreviation cu :: "char \<Rightarrow> jschar" where
  "cu ch \<equiv> of_char ch"

abbreviation js :: "string \<Rightarrow> jsstring" where
  "js s \<equiv> map of_char s"

subsection \<open>Values and their JSON serialization\<close>

text \<open>
  The cached payload is opaque to the cache except for three things: it is handed back by
  \<open>get\<close>, it is compared with \<open>null\<close> by \<open>has\<close>, and it is passed to
  \<open>JSON.stringify\<close> by the memory estimate. The value type keeps the cases that these
  three distinguish. \<open>JCyclic\<close> stands for an object that refers to itself.
\<close>

datatype jsval = JNull | JUndefined | JBool bool | JStr jsstring | JCyclic

text \<open>
  \<open>JSON.stringify\<close> is a builtin of the platform. It returns a text, or returns
  \<open>undefined\<close> (for \<open>undefined\<close>), or throws a \<open>TypeError\<close> (for a cyclic structure).
  A string is quoted: the quote, the backslash and the control characters are escaped, a
  surrogate that is not part of a pair is written as an escape of four hexadecimal
  digits, and every other code unit stands for itself.
\<close>

datatype json_result = Text jsstring | NoText | Throws

definition hex_digit :: "nat \<Rightarrow> jschar" where
  "hex_digit n = (if n < 10 then of_nat (48 + n) else of_nat (87 + n))"

definition high_surrogate :: "jschar \<Rightarrow> bool" where
  "high_surrogate ch \<longleftrightarrow> 0xD800 \<le> ch \<and> ch \<le> 0xDBFF"

definition low_surrogate :: "jschar \<Rightarrow> bool" where
  "low_surrogate ch \<longleftrightarrow> 0xDC00 \<le> ch \<and> ch \<le> 0xDFFF"

definition json_escape :: "jschar \<Rightarrow> jsstring" where
  "json_escape ch =
     (if ch = 0x22 then [0x5C, 0x22]
      else if ch = 0x5C then [0x5C, 0x5C]
      else if ch = 0x08 then [0x5C, cu CHR ''b'']
      else if ch = 0x09 then [0x5C, cu CHR ''t'']
      else if ch = 0x0A then [0x5C, cu CHR ''n'']
      else if ch = 0x0C then [0x5C, cu CHR ''f'']
      else if ch = 0x0D then [0x5C, cu CHR ''r'']
      else if ch < 0x20 \<or> high_surrogate ch \<or> low_surrogate ch
        then [0x5C, cu CHR ''u'',
              hex_digit (unat ch div 4096), hex_digit (unat ch div 256 mod 16),
              hex_digit (unat ch div 16 mod 16), hex_digit (unat ch mod 16)]
      else [ch])"

fun json_quote :: "jsstring \<Rightarrow> jsstring" where
  "json_quote [] = []"
| "json_quote [ch] = json_escape ch"
| "json_quote (ch # d # rest) =
     (if high_surrogate ch \<and> low_surrogate d then ch # d # json_quote rest
      else json_escape ch @ json_quote (d # rest))"

fun JSON_stringify :: "jsval \<Rightarrow> json_result" where
  "JSON_stringify JNull = Text (js ''null'')"
| "JSON_stringify JUndefined = NoText"
| "JSON_stringify (JBool b) = Text (if b then js ''true'' else js ''false'')"
| "JSON_stringify (JStr s) = Text ([0x22] @ json_quote s @ [0x22])"
| "JSON_stringify JCyclic = Throws"

subsection \<open>Entries, configuration and the cache state\<close>

record CacheEntry =
  val :: jsval
  createdAt :: int
  accessedAt :: int
  expiresAt :: "int option"
  ttl :: "int option"

datatype policy = LRU | FIFO

record MemoryCacheConfig =
  cfg_maxSize :: "int option"
  cfg_maxMemory :: "int option"
  cfg_defaultTTL :: "int option"
  cfg_cleanupInterval :: "int option"
  cfg_evictionPolicy :: "policy option"

record MemoryCache =
  store :: "(jsstring \<times> CacheEntry) list"
  accessOrder :: "(jsstring \<times> nat) list"
  nextAccessTime :: nat
  maxSize :: int
  maxMemory :: int
  defaultTTL :: int
  evictionPolicy :: policy
  hits :: nat
  misses :: nat
  evictions :: nat
  cleanupTimer :: "int option"

datatype error = TypeError

text \<open>
  A call either returns, leaving the cache in a state, or throws, leaving it in the state
  reached when the exception left the method. A call that never returns has no outcome.
\<close>

datatype outcome = Return MemoryCache | Throw error MemoryCache

text \<open>\<open>a ?? b\<close>: the default where the option is absent.\<close>

definition nullish :: "'a option \<Rightarrow> 'a \<Rightarrow> 'a" where
  "nullish a b = (case a of None \<Rightarrow> b | Some x \<Rightarrow> x)"

text \<open>
  The constructor has no check and no \<open>throw\<close>; its result type has the error summand
  only so that "construction raises" can be stated about it. The timer that
  \<open>setInterval\<close> arms is kept as the interval it was armed with.
\<close>

definition constructor :: "MemoryCacheConfig \<Rightarrow> error + MemoryCache" where
  "constructor config = Inr
     \<lparr> store = [], accessOrder = [], nextAccessTime = 1,
       maxSize = nullish (cfg_maxSize config) 1000,
       maxMemory = nullish (cfg_maxMemory config) (100 * 1024 * 1024),
       defaultTTL = nullish (cfg_defaultTTL config) (60 * 60 * 1000),
       evictionPolicy = nullish (cfg_evictionPolicy config) LRU,
       hits = 0, misses = 0, evictions = 0,
       cleanupTimer = Some (nullish (cfg_cleanupInterval config) (5 * 60 * 1000)) \<rparr>"

subsection \<open>Reading\<close>

text \<open>
  The test \<open>entry.expiresAt && now > entry.expiresAt\<close>: an absent \<open>expiresAt\<close> and the
  number \<open>0\<close> are both falsy.
\<close>

definition isExpired :: "CacheEntry \<Rightarrow> int \<Rightarrow> bool" where
  "isExpired entry now =
     (case expiresAt entry of None \<Rightarrow> False | Some e \<Rightarrow> e \<noteq> 0 \<and> now > e)"

definition get :: "MemoryCache \<Rightarrow> int \<Rightarrow> jsstring \<Rightarrow> jsval \<times> MemoryCache" where
  "get c now key =
     (case map_of (store c) key of
        None \<Rightarrow> (JNull, c\<lparr>misses := misses c + 1\<rparr>)
      | Some entry \<Rightarrow>
          if isExpired entry now
          then (JNull, c\<lparr>store := AList.delete key (store c),
                         accessOrder := AList.delete key (accessOrder c),
                         misses := misses c + 1\<rparr>)
          else
            let c1 = c\<lparr>store := AList.update key (entry\<lparr>accessedAt := now\<rparr>) (store c)\<rparr>;
                c2 = (if evictionPolicy c1 = LRU
                      then c1\<lparr>accessOrder := AList.update key (nextAccessTime c1) (accessOrder c1),
                              nextAccessTime := nextAccessTime c1 + 1\<rparr>
                      else c1)
            in (val entry, c2\<lparr>hits := hits c2 + 1\<rparr>))"

definition has :: "MemoryCache \<Rightarrow> int \<Rightarrow> jsstring \<Rightarrow> bool \<times> MemoryCache" where
  "has c now key = (case get c now key of (v, c') \<Rightarrow> (v \<noteq> JNull, c'))"

subsection \<open>Eviction\<close>

text \<open>
  The two victim searches of \<open>evictOne\<close>. The accumulator is the pair of loop variables
  (\<open>oldestAccessTime\<close> or \<open>oldestTime\<close>, \<open>keyToEvict\<close>); it starts as
  \<open>(Infinity, '')\<close>.
\<close>

fun lru_scan :: "(jsstring \<times> nat) list \<Rightarrow> nat option \<times> jsstring \<Rightarrow> nat option \<times> jsstring" where
  "lru_scan [] acc = acc"
| "lru_scan ((key, accessTime) # rest) (oldestAccessTime, keyToEvict) =
     (if (case oldestAccessTime of None \<Rightarrow> True | Some t \<Rightarrow> accessTime < t)
      then lru_scan rest (Some accessTime, key)
      else lru_scan rest (oldestAccessTime, keyToEvict))"

fun fifo_scan :: "(jsstring \<times> CacheEntry) list \<Rightarrow> int option \<times> jsstring \<Rightarrow> int option \<times> jsstring" where
  "fifo_scan [] acc = acc"
| "fifo_scan ((key, entry) # rest) (oldestTime, keyToEvict) =
     (if (case oldestTime of None \<Rightarrow> True | Some t \<Rightarrow> createdAt entry < t)
      then fifo_scan rest (Some (createdAt entry), key)
      else fifo_scan rest (oldestTime, keyToEvict))"

definition keyToEvict :: "MemoryCache \<Rightarrow> jsstring" where
  "keyToEvict c =
     (if evictionPolicy c = LRU
      then snd (lru_scan (accessOrder c) (None, []))
      else snd (fifo_scan (store c) (None, [])))"

text \<open>The final \<open>if (keyToEvict)\<close> is a truthiness test: the empty string is falsy.\<close>

definition evictOne :: "MemoryCache \<Rightarrow> MemoryCache" where
  "evictOne c =
     (if length (store c) = 0 then c
      else if keyToEvict c \<noteq> []
      then c\<lparr>store := AList.delete (keyToEvict c) (store c),
             accessOrder := AList.delete (keyToEvict c) (accessOrder c),
             evictions := evictions c + 1\<rparr>
      else c)"

subsection \<open>Memory accounting\<close>

text \<open>
  \<open>JSON.stringify(entry.value).length\<close> throws a \<open>TypeError\<close> when the serialization
  throws and also when it returns \<open>undefined\<close>, which has no \<open>length\<close>.
\<close>

fun estimate_loop :: "(jsstring \<times> CacheEntry) list \<Rightarrow> int \<Rightarrow> error + int" where
  "estimate_loop [] totalBytes = Inr totalBytes"
| "estimate_loop ((key, entry) # rest) totalBytes =
     (case JSON_stringify (val entry) of
        Text s \<Rightarrow> estimate_loop rest (totalBytes + int (length key) * 2 + int (length s) * 2 + 64)
      | NoText \<Rightarrow> Inl TypeError
      | Throws \<Rightarrow> Inl TypeError)"

definition estimateMemoryUsage :: "MemoryCache \<Rightarrow> error + int" where
  "estimateMemoryUsage c = estimate_loop (store c) 0"

text \<open>
  The loop of \<open>checkMemoryLimits\<close> tests the constant \<open>currentMemory\<close>, computed once
  before the loop. It need not terminate, so it is a partial function: \<open>None\<close> is a
  loop that runs forever.
\<close>

partial_function (option) checkMemoryLoop :: "int \<Rightarrow> MemoryCache \<Rightarrow> MemoryCache option" where
  "checkMemoryLoop currentMemory c =
     (if currentMemory > maxMemory c \<and> length (store c) > 0
      then checkMemoryLoop currentMemory (evictOne c)
      else Some c)"

declare checkMemoryLoop.simps [code]

definition checkMemoryLimits :: "MemoryCache \<Rightarrow> outcome option" where
  "checkMemoryLimits c =
     (case estimateMemoryUsage c of
        Inl e \<Rightarrow> Some (Throw e c)
      | Inr currentMemory \<Rightarrow> map_option Return (checkMemoryLoop currentMemory c))"

subsection \<open>Writing\<close>

definition cache_set :: "MemoryCache \<Rightarrow> int \<Rightarrow> jsstring \<Rightarrow> jsval \<Rightarrow> int option \<Rightarrow> outcome option" where
  "cache_set c now key v ttl_arg =
     (let effectiveTTL = nullish ttl_arg (defaultTTL c);
          entry = \<lparr> val = v, createdAt = now, accessedAt = now,
                    expiresAt = (if effectiveTTL > 0 then Some (now + effectiveTTL) else None),
                    ttl = Some effectiveTTL \<rparr>;
          c1 = (if map_of (store c) key = None \<and> int (length (store c)) \<ge> maxSize c
                then evictOne c else c);
          c2 = c1\<lparr>store := AList.update key entry (store c1)\<rparr>;
          c3 = (if evictionPolicy c2 = LRU
                then c2\<lparr>accessOrder := AList.update key (nextAccessTime c2) (accessOrder c2),
                        nextAccessTime := nextAccessTime c2 + 1\<rparr>
                else c2)
      in checkMemoryLimits c3)"

definition cache_delete :: "MemoryCache \<Rightarrow> jsstring \<Rightarrow> bool \<times> MemoryCache" where
  "cache_delete c key =
     (map_of (store c) key \<noteq> None,
      c\<lparr>store := AList.delete key (store c), accessOrder := AList.delete key (accessOrder c)\<rparr>)"

definition clear :: "MemoryCache \<Rightarrow> MemoryCache" where
  "clear c = c\<lparr>store := [], accessOrder := [], nextAccessTime := 1,
               hits := 0, misses := 0, evictions := 0\<rparr>"

definition cache_size :: "MemoryCache \<Rightarrow> nat" where
  "cache_size c = length (store c)"

subsection \<open>Periodic reclamation\<close>

text \<open>
  \<open>cleanup\<close> walks the entries of the table and deletes the expired ones as it goes;
  deleting the entry under the cursor does not disturb the walk over the others.
\<close>

fun cleanup_loop :: "int \<Rightarrow> (jsstring \<times> CacheEntry) list \<Rightarrow> MemoryCache \<times> nat \<Rightarrow> MemoryCache \<times> nat" where
  "cleanup_loop now [] acc = acc"
| "cleanup_loop now ((key, entry) # rest) (c, cleanedCount) =
     (if isExpired entry now
      then cleanup_loop now rest
             (c\<lparr>store := AList.delete key (store c),
                accessOrder := AList.delete key (accessOrder c)\<rparr>, cleanedCount + 1)
      else cleanup_loop now rest (c, cleanedCount))"

definition cleanup :: "MemoryCache \<Rightarrow> int \<Rightarrow> nat \<times> MemoryCache" where
  "cleanup c now = (case cleanup_loop now (store c) (c, 0) of (c', n) \<Rightarrow> (n, c'))"

definition destroy :: "MemoryCache \<Rightarrow> MemoryCache" where
  "destroy c = clear (c\<lparr>cleanupTimer := None\<rparr>)"

subsection \<open>Key patterns\<close>

text \<open>\<open>s.replace(/ch/g, r)\<close> for a single character \<open>ch\<close>, and for a character class.\<close>

definition replace_chars :: "(jschar \<Rightarrow> bool) \<Rightarrow> (jschar \<Rightarrow> jsstring) \<Rightarrow> jsstring \<Rightarrow> jsstring" where
  "replace_chars cls r s = concat (map (\<lambda>ch. if cls ch then r ch else [ch]) s)"

text \<open>The class \<open>[.+^${}()|[\]\\]\<close> of the first replacement, whose matches get a backslash.\<close>

definition escaped_class :: "jschar \<Rightarrow> bool" where
  "escaped_class ch = (ch \<in> set (js ''.+^${}()|[]'') \<or> ch = 0x5C)"

definition globToRegex :: "jsstring \<Rightarrow> jsstring" where
  "globToRegex pattern =
     (let escaped =
        replace_chars (\<lambda>ch. ch = cu CHR ''?'') (\<lambda>_. (js ''.''))
          (replace_chars (\<lambda>ch. ch = cu CHR ''*'') (\<lambda>_. (js ''.*''))
            (replace_chars escaped_class (\<lambda>ch. [0x5C, ch]) pattern))
      in (js ''^'') @ escaped @ (js ''$''))"

text \<open>
  \<open>RegExp\<close> is a builtin of the platform. The model covers the regular expressions that
  start with the anchor \<open>^\<close> and continue with literal characters, escaped syntax
  characters, \<open>.\<close>, \<open>.*\<close> and a final anchor \<open>$\<close>; on any other source
  \<open>RegExp_new\<close> is \<open>None\<close>: not modelled. No flag is given, so \<open>.\<close> matches any
  code unit but a line terminator (LF, CR, U+2028, U+2029), \<open>^\<close> matches only at
  index 0 and \<open>$\<close> only at the end of the input.
\<close>

datatype atom = Lit jschar | AnyChar | AnyStar | EndOfInput

definition syntax_char :: "jschar \<Rightarrow> bool" where
  "syntax_char ch = (ch \<in> set (js ''^$.*+?()[]{}|'') \<or> ch = 0x5C)"

definition lineTerminator :: "jschar \<Rightarrow> bool" where
  "lineTerminator ch = (ch = 0x0A \<or> ch = 0x0D \<or> ch = 0x2028 \<or> ch = 0x2029)"

fun parse_atoms :: "jsstring \<Rightarrow> atom list option" where
  "parse_atoms [] = Some []"
| "parse_atoms (ch # r) =
     (if ch = 0x5C
      then (case r of
              [] \<Rightarrow> None
            | d # r' \<Rightarrow> if syntax_char d then map_option ((#) (Lit d)) (parse_atoms r') else None)
      else if ch = cu CHR ''.''
      then (case r of
              [] \<Rightarrow> Some [AnyChar]
            | d # r' \<Rightarrow> if d = cu CHR ''*'' then map_option ((#) AnyStar) (parse_atoms r')
                       else map_option ((#) AnyChar) (parse_atoms (d # r')))
      else if ch = cu CHR ''$''
      then (if r = [] then Some [EndOfInput] else None)
      else if syntax_char ch then None
      else map_option ((#) (Lit ch)) (parse_atoms r))"

definition RegExp_new :: "jsstring \<Rightarrow> atom list option" where
  "RegExp_new source =
     (case source of
        [] \<Rightarrow> None
      | ch # body \<Rightarrow> if ch = cu CHR ''^'' then parse_atoms body else None)"

fun regex_match :: "atom list \<Rightarrow> jsstring \<Rightarrow> bool" where
  "regex_match [] s = True"
| "regex_match (EndOfInput # r) s = (s = [] \<and> regex_match r s)"
| "regex_match (Lit ch # r) s = (case s of [] \<Rightarrow> False | x # xs \<Rightarrow> x = ch \<and> regex_match r xs)"
| "regex_match (AnyChar # r) s =
     (case s of [] \<Rightarrow> False | x # xs \<Rightarrow> \<not> lineTerminator x \<and> regex_match r xs)"
| "regex_match (AnyStar # r) s =
     (regex_match r s \<or>
      (case s of [] \<Rightarrow> False | x # xs \<Rightarrow> \<not> lineTerminator x \<and> regex_match (AnyStar # r) xs))"

definition RegExp_test :: "atom list \<Rightarrow> jsstring \<Rightarrow> bool" where
  "RegExp_test regex s = regex_match regex s"

text \<open>
  \<open>keys\<close>: the guard \<open>!pattern\<close> holds for an absent pattern and for the empty string.
  The result is \<open>None\<close> only where the regular expression is outside the model.
\<close>

definition keys :: "MemoryCache \<Rightarrow> jsstring option \<Rightarrow> jsstring list option" where
  "keys c pattern =
     (let allKeys = map fst (store c)
      in case pattern of
           None \<Rightarrow> Some allKeys
         | Some p \<Rightarrow>
             if p = [] then Some allKeys
             else (case RegExp_new (globToRegex p) of
                     None \<Rightarrow> None
                   | Some regex \<Rightarrow> Some (filter (RegExp_test regex) allKeys)))"

subsection \<open>The glob matching that the specification describes\<close>

text \<open>
  Following the specification's words, not the code: the whole key matches the whole
  pattern, \<open>*\<close> matches any run of zero or more characters, \<open>?\<close> matches exactly one
  character, and every other character matches itself.
\<close>

fun glob_match :: "jsstring \<Rightarrow> jsstring \<Rightarrow> bool" where
  "glob_match [] key = (key = [])"
| "glob_match (p # ps) key =
     (if p = cu CHR ''*'' then (\<exists>n \<in> {0..length key}. glob_match ps (drop n key))
      else if p = cu CHR ''?'' then (case key of [] \<Rightarrow> False | x # xs \<Rightarrow> glob_match ps xs)
      else (case key of [] \<Rightarrow> False | x # xs \<Rightarrow> x = p \<and> glob_match ps xs))"

subsection \<open>Scenarios\<close>

text \<open>\<open>new MemoryCache()\<close>: the empty configuration.\<close>

definition default_config :: MemoryCacheConfig where
  "default_config = \<lparr> cfg_maxSize = None, cfg_maxMemory = None, cfg_defaultTTL = None,
                        cfg_cleanupInterval = None, cfg_evictionPolicy = None \<rparr>"

text \<open>
  Sequencing for scenarios: the cache that a construction or a call leaves when it returns
  normally, and nothing when it throws or does not return.
\<close>

definition constructed :: "MemoryCacheConfig \<Rightarrow> MemoryCache option" where
  "constructed config = (case constructor config of Inl e \<Rightarrow> None | Inr c \<Rightarrow> Some c)"

definition returned :: "outcome option \<Rightarrow> MemoryCache option" where
  "returned r = (case r of Some (Return c) \<Rightarrow> Some c | _ \<Rightarrow> None)"

text \<open>The state that \<open>new MemoryCache().set('n', null, 0)\<close> at time 5 leaves.\<close>

definition null_cache :: MemoryCache where
  "null_cache = \<lparr> store = [((js ''n''), \<lparr> val = JNull, createdAt = 5, accessedAt = 5,
                                      expiresAt = None, ttl = Some 0 \<rparr>)],
                   accessOrder = [((js ''n''), 1)], nextAccessTime = 2, maxSize = 1000,
                   maxMemory = 104857600, defaultTTL = 3600000, evictionPolicy = LRU,
                   hits = 0, misses = 0, evictions = 0, cleanupTimer = Some 300000 \<rparr>"

text \<open>The state that \<open>new MemoryCache().set('k', 'v', 5)\<close> at time 5 leaves.\<close>

definition stale_cache :: MemoryCache where
  "stale_cache = \<lparr> store = [((js ''k''), \<lparr> val = JStr (js ''v''), createdAt = 5, accessedAt = 5,
                                       expiresAt = Some 10, ttl = Some 5 \<rparr>)],
                    accessOrder = [((js ''k''), 1)], nextAccessTime = 2, maxSize = 1000,
                    maxMemory = 104857600, defaultTTL = 3600000, evictionPolicy = LRU,
                    hits = 0, misses = 0, evictions = 0, cleanupTimer = Some 300000 \<rparr>"

text \<open>\<open>new MemoryCache({ maxSize: 1 })\<close>.\<close>

definition one_slot_config :: MemoryCacheConfig where
  "one_slot_config = \<lparr> cfg_maxSize = Some 1, cfg_maxMemory = None, cfg_defaultTTL = None,
                         cfg_cleanupInterval = None, cfg_evictionPolicy = None \<rparr>"

text \<open>
  The eviction test of the test suite, for either policy: on a cache with \<open>maxSize = 3\<close>,
  \<open>set\<close> of \<open>k1\<close>, \<open>k2\<close>, \<open>k3\<close> at times 1, 2, 3, \<open>get('k1')\<close> at time 4 and
  \<open>set\<close> of \<open>k4\<close> at time 5. It yields the value read, the keys that the last
  \<open>set\<close> removed and the keys of the final table.
\<close>

definition three_slot_config :: "policy \<Rightarrow> MemoryCacheConfig" where
  "three_slot_config p = \<lparr> cfg_maxSize = Some 3, cfg_maxMemory = None, cfg_defaultTTL = None,
                            cfg_cleanupInterval = None, cfg_evictionPolicy = Some p \<rparr>"

definition eviction_test :: "policy \<Rightarrow> (jsval \<times> jsstring list \<times> jsstring list) option" where
  "eviction_test p =
     Option.bind (constructed (three_slot_config p)) (\<lambda>c0.
     Option.bind (returned (cache_set c0 1 (js ''k1'') (JStr (js ''v1'')) None)) (\<lambda>c1.
     Option.bind (returned (cache_set c1 2 (js ''k2'') (JStr (js ''v2'')) None)) (\<lambda>c2.
     Option.bind (returned (cache_set c2 3 (js ''k3'') (JStr (js ''v3'')) None)) (\<lambda>c3.
     case get c3 4 (js ''k1'') of (v, c4) \<Rightarrow>
     Option.bind (returned (cache_set c4 5 (js ''k4'') (JStr (js ''v4'')) None)) (\<lambda>c5.
       Some (v, filter (\<lambda>k. map_of (store c5) k = None) (map fst (store c4)),
             map fst (store c5)))))))"

text \<open>The states of that test just before \<open>k4\<close> is set, under LRU and under FIFO.\<close>

definition entry_at :: "string \<Rightarrow> int \<Rightarrow> int \<Rightarrow> CacheEntry" where
  "entry_at v created accessed = \<lparr> val = JStr (js v), createdAt = created, accessedAt = accessed,
       expiresAt = Some (created + 3600000), ttl = Some 3600000 \<rparr>"

definition lru_full_cache :: MemoryCache where
  "lru_full_cache = \<lparr> store = [((js ''k1''), entry_at ''v1'' 1 4), ((js ''k2''), entry_at ''v2'' 2 2),
                               ((js ''k3''), entry_at ''v3'' 3 3)],
                       accessOrder = [((js ''k1''), 4), ((js ''k2''), 2), ((js ''k3''), 3)], nextAccessTime = 5,
                       maxSize = 3, maxMemory = 104857600, defaultTTL = 3600000,
                       evictionPolicy = LRU, hits = 1, misses = 0, evictions = 0,
                       cleanupTimer = Some 300000 \<rparr>"



subsection \<open>Auxiliary notions for the properties of \<open>set\<close>\<close>

text \<open>
  The entry that \<open>set\<close> builds, and the state of \<open>set\<close> at the point where it calls
  \<open>checkMemoryLimits\<close>: after the capacity eviction, the insertion and the update of the
  order index.
\<close>

definition new_entry :: "MemoryCache \<Rightarrow> int \<Rightarrow> jsval \<Rightarrow> int option \<Rightarrow> CacheEntry" where
  "new_entry c now v ttl_arg =
     \<lparr> val = v, createdAt = now, accessedAt = now,
       expiresAt = (if nullish ttl_arg (defaultTTL c) > 0
                    then Some (now + nullish ttl_arg (defaultTTL c)) else None),
       ttl = Some (nullish ttl_arg (defaultTTL c)) \<rparr>"

definition inserted :: "MemoryCache \<Rightarrow> int \<Rightarrow> jsstring \<Rightarrow> jsval \<Rightarrow> int option \<Rightarrow> MemoryCache" where
  "inserted c now key v ttl_arg =
     (let c1 = (if map_of (store c) key = None \<and> int (length (store c)) \<ge> maxSize c
                then evictOne c else c);
          c2 = c1\<lparr>store := AList.update key (new_entry c now v ttl_arg) (store c1)\<rparr>
      in if evictionPolicy c2 = LRU
         then c2\<lparr>accessOrder := AList.update key (nextAccessTime c2) (accessOrder c2),
                 nextAccessTime := nextAccessTime c2 + 1\<rparr>
         else c2)"

text \<open>
  Two conditions on a cache state under which every eviction makes progress and the memory
  estimate is defined: no entry is stored under the empty key and, under LRU, the order
  index has exactly the keys of the table; and every stored value has a JSON text.
\<close>

definition evictable :: "MemoryCache \<Rightarrow> bool" where
  "evictable c \<longleftrightarrow>
     [] \<notin> fst ` set (store c) \<and>
     (evictionPolicy c = LRU \<longrightarrow> fst ` set (accessOrder c) = fst ` set (store c))"

definition serializable :: "MemoryCache \<Rightarrow> bool" where
  "serializable c \<longleftrightarrow> (\<forall>(k, e) \<in> set (store c). \<exists>s. JSON_stringify (val e) = Text s)"

text \<open>\<open>new MemoryCache({ maxMemory: 10 })\<close>, as a configuration and as the cache built.\<close>

definition tiny_memory_config :: MemoryCacheConfig where
  "tiny_memory_config = \<lparr> cfg_maxSize = None, cfg_maxMemory = Some 10, cfg_defaultTTL = None,
                           cfg_cleanupInterval = None, cfg_evictionPolicy = None \<rparr>"

definition tiny_memory_cache :: MemoryCache where
  "tiny_memory_cache = \<lparr> store = [], accessOrder = [], nextAccessTime = 1, maxSize = 1000,
                          maxMemory = 10, defaultTTL = 3600000, evictionPolicy = LRU,
                          hits = 0, misses = 0, evictions = 0, cleanupTimer = Some 300000 \<rparr>"

text \<open>The state that \<open>new MemoryCache().set('p', 'v', 0)\<close> at time 5 leaves.\<close>

definition permanent_cache :: MemoryCache where
  "permanent_cache = \<lparr> store = [((js ''p''), \<lparr> val = JStr (js ''v''), createdAt = 5, accessedAt = 5,
                                           expiresAt = None, ttl = Some 0 \<rparr>)],
                        accessOrder = [((js ''p''), 1)], nextAccessTime = 2, maxSize = 1000,
                        maxMemory = 104857600, defaultTTL = 3600000, evictionPolicy = LRU,
                        hits = 0, misses = 0, evictions = 0, cleanupTimer = Some 300000 \<rparr>"

subsection \<open>Auxiliary notions for the properties of \<open>keys\<close>\<close>

text \<open>
  What the three replacements of \<open>globToRegex\<close> make of one pattern character, and the
  atom that the resulting piece of regular expression denotes.
\<close>

definition glob_char :: "jschar \<Rightarrow> jsstring" where
  "glob_char ch =
     (if escaped_class ch then [0x5C, ch]
      else if ch = cu CHR ''*'' then (js ''.*'')
      else if ch = cu CHR ''?'' then (js ''.'')
      else [ch])"

definition atom_of :: "jschar \<Rightarrow> atom" where
  "atom_of ch = (if ch = cu CHR ''*'' then AnyStar else if ch = cu CHR ''?'' then AnyChar else Lit ch)"

text \<open>
  A cache with five keys, and one whose two keys contain a line feed and the line
  separator U+2028.
\<close>

definition pattern_cache :: MemoryCache where
  "pattern_cache = \<lparr> store = [((js ''user:1''), entry_at ''a'' 1 1), ((js ''user:22''), entry_at ''b'' 2 2),
                              ((js ''post:1''), entry_at ''c'' 3 3), ((js ''a.b''), entry_at ''d'' 4 4),
                              ((js ''axb''), entry_at ''e'' 5 5)],
                      accessOrder = [((js ''user:1''), 1), ((js ''user:22''), 2), ((js ''post:1''), 3),
                                     ((js ''a.b''), 4), ((js ''axb''), 5)],
                      nextAccessTime = 6, maxSize = 1000, maxMemory = 104857600,
                      defaultTTL = 3600000, evictionPolicy = LRU, hits = 0, misses = 0,
                      evictions = 0, cleanupTimer = Some 300000 \<rparr>"

definition newline_cache :: MemoryCache where
  "newline_cache = \<lparr> store = [([cu CHR ''a'', 0x0A, cu CHR ''b''], entry_at ''v'' 1 1),
                              ([cu CHR ''a'', 0x2028, cu CHR ''b''], entry_at ''w'' 2 2)],
                      accessOrder = [([cu CHR ''a'', 0x0A, cu CHR ''b''], 1),
                                     ([cu CHR ''a'', 0x2028, cu CHR ''b''], 2)],
                      nextAccessTime = 3, maxSize = 1000, maxMemory = 104857600,
                      defaultTTL = 3600000, evictionPolicy = LRU, hits = 0, misses = 0,
                      evictions = 0, cleanupTimer = Some 300000 \<rparr>"

text \<open>\<open>new MemoryCache()\<close>, as the cache built.\<close>

definition fresh_cache :: MemoryCache where
  "fresh_cache = \<lparr> store = [], accessOrder = [], nextAccessTime = 1, maxSize = 1000,
                    maxMemory = 104857600, defaultTTL = 3600000, evictionPolicy = LRU,
                    hits = 0, misses = 0, evictions = 0, cleanupTimer = Some 300000 \<rparr>"

text \<open>A cache with \<open>maxMemory = 100\<close> that holds one entry, estimated at 72 bytes.\<close>

definition small_cache :: MemoryCache where
  "small_cache = \<lparr> store = [(js ''a'', entry_at ''x'' 1 1)], accessOrder = [(js ''a'', 1)],
                    nextAccessTime = 2, maxSize = 1000, maxMemory = 100, defaultTTL = 3600000,
                    evictionPolicy = LRU, hits = 0, misses = 0, evictions = 0,
                    cleanupTimer = Some 300000 \<rparr>"

section \<open>Verified properties\<close>

subsection \<open>Helper facts on the tables\<close>

lemma update_mem: "(k, v) \<in> set (AList.update k v al)"
  by (induction al) auto

subsection \<open>Values that cannot be serialized\<close>

lemma estimate_loop_throws:
  "(k, e) \<in> set es \<Longrightarrow> \<forall>s. JSON_stringify (val e) \<noteq> Text s \<Longrightarrow> estimate_loop es t = Inl TypeError"
proof (induction es arbitrary: t)
  case Nil
  then show ?case by simp
next
  case (Cons p es)
  obtain k' e' where p: "p = (k', e')" by (cases p)
  show ?case
  proof (cases "JSON_stringify (val e')")
    case (Text s)
    with Cons p have "(k, e) \<in> set es" by auto
    with Cons Text p show ?thesis by simp
  qed (simp_all add: p)
qed

lemma cache_set_throws:
  assumes "\<forall>s. JSON_stringify v \<noteq> Text s"
  shows "\<exists>c'. cache_set c now key v ttl_arg = Some (Throw TypeError c') \<and>
              (\<exists>e. map_of (store c') key = Some e \<and> val e = v)"
proof -
  define entry where "entry = \<lparr> val = v, createdAt = now, accessedAt = now,
     expiresAt = (if nullish ttl_arg (defaultTTL c) > 0
                  then Some (now + nullish ttl_arg (defaultTTL c)) else None),
     ttl = Some (nullish ttl_arg (defaultTTL c)) \<rparr>"
  have v: "\<forall>s. JSON_stringify (val entry) \<noteq> Text s" using assms by (simp add: entry_def)
  have "estimate_loop (AList.update key entry st) 0 = Inl TypeError" for st
    using estimate_loop_throws [OF update_mem v] .
  moreover have "val entry = v" by (simp add: entry_def)
  ultimately show ?thesis
    by (simp add: cache_set_def Let_def checkMemoryLimits_def estimateMemoryUsage_def
        entry_def [symmetric] AList.update_conv')
qed

text \<open>
  Claim C2 says that \<open>set(key, value)\<close> completes without raising for every value, a
  fallback estimate standing in for a value that cannot be serialized. The code has no
  fallback: on every cache, at every time and for every key, \<open>set\<close> of a
  self-referential value and \<open>set\<close> of \<open>undefined\<close> throw a \<open>TypeError\<close> out of the
  memory estimate, after the entry has been stored. The last conjunct is the call
  \<open>new MemoryCache().set('circular', circular)\<close> of the test suite, at time 0.
\<close>

theorem set_unserializable_throws:
  "(\<exists>c'. cache_set c now key JCyclic ttl_arg = Some (Throw TypeError c')) \<and>
   (\<exists>c'. cache_set c now key JUndefined ttl_arg = Some (Throw TypeError c')) \<and>
   Option.bind (constructed default_config) (\<lambda>c0. cache_set c0 0 (js ''circular'') JCyclic None)
     = Some (Throw TypeError
         \<lparr> store = [((js ''circular''), \<lparr> val = JCyclic, createdAt = 0, accessedAt = 0,
                       expiresAt = Some 3600000, ttl = Some 3600000 \<rparr>)],
           accessOrder = [((js ''circular''), 1)], nextAccessTime = 2, maxSize = 1000,
           maxMemory = 104857600, defaultTTL = 3600000, evictionPolicy = LRU,
           hits = 0, misses = 0, evictions = 0, cleanupTimer = Some 300000 \<rparr>)"
proof -
  have a: "\<exists>c'. cache_set c now key JCyclic ttl_arg = Some (Throw TypeError c')"
    using cache_set_throws [of JCyclic c now key ttl_arg] by auto
  have b: "\<exists>c'. cache_set c now key JUndefined ttl_arg = Some (Throw TypeError c')"
    using cache_set_throws [of JUndefined c now key ttl_arg] by auto
  have c: "Option.bind (constructed default_config) (\<lambda>c0. cache_set c0 0 (js ''circular'') JCyclic None)
     = Some (Throw TypeError
         \<lparr> store = [((js ''circular''), \<lparr> val = JCyclic, createdAt = 0, accessedAt = 0,
                       expiresAt = Some 3600000, ttl = Some 3600000 \<rparr>)],
           accessOrder = [((js ''circular''), 1)], nextAccessTime = 2, maxSize = 1000,
           maxMemory = 104857600, defaultTTL = 3600000, evictionPolicy = LRU,
           hits = 0, misses = 0, evictions = 0, cleanupTimer = Some 300000 \<rparr>)"
    by (simp add: constructed_def default_config_def constructor_def nullish_def cache_set_def
        Let_def checkMemoryLimits_def estimateMemoryUsage_def)
  from a b c show ?thesis by blast
qed

subsection \<open>Construction\<close>

text \<open>
  Claim C4 as stated, refuted: constructing a cache with \<open>maxSize = -1\<close> does not raise;
  it returns a cache whose \<open>maxSize\<close> is \<open>-1\<close>.
\<close>

theorem constructor_negative_maxSize_counterexample:
  "constructor \<lparr> cfg_maxSize = Some (- 1), cfg_maxMemory = None, cfg_defaultTTL = None,
                 cfg_cleanupInterval = None, cfg_evictionPolicy = None \<rparr>
   = Inr \<lparr> store = [], accessOrder = [], nextAccessTime = 1, maxSize = - 1,
           maxMemory = 104857600, defaultTTL = 3600000, evictionPolicy = LRU,
           hits = 0, misses = 0, evictions = 0, cleanupTimer = Some 300000 \<rparr>"
  by (simp add: constructor_def nullish_def)

text \<open>
  Claim C4 as amended: construction never raises, whatever the configuration; the
  configured \<open>maxSize\<close>, negative or not, is stored as given (1000 when absent), and the
  new cache is empty.
\<close>

theorem constructor_never_raises:
  "\<not> isl (constructor config) \<and>
   maxSize (projr (constructor config)) = nullish (cfg_maxSize config) 1000 \<and>
   store (projr (constructor config)) = []"
  by (simp add: constructor_def)

subsection \<open>A stored \<open>null\<close>\<close>

text \<open>
  Claim C10: for a key \<open>k\<close> whose entry is live (no \<open>expiresAt\<close>, or one that has not
  passed) and holds \<open>null\<close>, \<open>get(k)\<close> returns \<open>null\<close>, which is what \<open>get\<close> returns
  on any cache that has no entry for \<open>k\<close>; the call still counts as a hit (not as a miss),
  refreshes \<open>accessedAt\<close> and, under LRU, the order index; and \<open>has(k)\<close> returns false
  for that entry, with the same effects on the cache as \<open>get\<close>.
\<close>

theorem null_value_hit_but_has_false:
  assumes "map_of (store c) k = Some e" and "val e = JNull"
    and "case expiresAt e of None \<Rightarrow> True | Some x \<Rightarrow> now \<le> x"
  shows "fst (get c now k) = JNull \<and>
         (\<forall>c2. map_of (store c2) k = None \<longrightarrow> fst (get c2 now k) = fst (get c now k)) \<and>
         hits (snd (get c now k)) = hits c + 1 \<and>
         misses (snd (get c now k)) = misses c \<and>
         map_of (store (snd (get c now k))) k = Some (e\<lparr>accessedAt := now\<rparr>) \<and>
         (evictionPolicy c = LRU \<longrightarrow>
            accessOrder (snd (get c now k)) = AList.update k (nextAccessTime c) (accessOrder c) \<and>
            nextAccessTime (snd (get c now k)) = nextAccessTime c + 1) \<and>
         fst (has c now k) = False \<and>
         snd (has c now k) = snd (get c now k)"
proof -
  have live: "\<not> isExpired e now"
    using assms(3) by (auto simp: isExpired_def split: option.splits)
  show ?thesis
    using assms(1,2) live
    by (simp add: get_def has_def Let_def AList.update_conv' split: prod.splits)
qed

theorem null_value_hit_but_has_false_witness:
  "returned (Option.bind (constructed default_config) (\<lambda>c0. cache_set c0 5 (js ''n'') JNull (Some 0)))
     = Some null_cache \<and>
   map_of (store null_cache) (js ''n'')
     = Some \<lparr> val = JNull, createdAt = 5, accessedAt = 5, expiresAt = None, ttl = Some 0 \<rparr> \<and>
   evictionPolicy null_cache = LRU \<and>
   fst (get null_cache 9 (js ''n'')) = JNull \<and>
   hits (snd (get null_cache 9 (js ''n''))) = 1 \<and>
   accessOrder (snd (get null_cache 9 (js ''n''))) = [((js ''n''), 2)] \<and>
   fst (has null_cache 9 (js ''n'')) = False"
proof -
  have built: "returned (Option.bind (constructed default_config)
                 (\<lambda>c0. cache_set c0 5 (js ''n'') JNull (Some 0))) = Some null_cache"
    by (simp add: returned_def constructed_def default_config_def constructor_def nullish_def
        cache_set_def Let_def checkMemoryLimits_def estimateMemoryUsage_def
        checkMemoryLoop.simps null_cache_def)
  have m: "map_of (store null_cache) (js ''n'') =
      Some \<lparr> val = JNull, createdAt = 5, accessedAt = 5, expiresAt = None, ttl = Some 0 \<rparr>"
    by (simp add: null_cache_def)
  have p: "evictionPolicy null_cache = LRU" "hits null_cache = 0"
    "accessOrder null_cache = [((js ''n''), 1)]" "nextAccessTime null_cache = 2"
    by (simp_all add: null_cache_def)
  show ?thesis
    using built null_value_hit_but_has_false [OF m, of 9] p m by simp
qed

subsection \<open>Expired entries that are still in the table\<close>

text \<open>
  Claim C5 as stated, refuted: the cache left by \<open>set('k', 'v', 5)\<close> at time 5 holds an
  entry that expires at 10. At time 20 that entry is still in the table; \<open>get\<close> treats
  it as absent, but \<open>size\<close> counts it and \<open>keys\<close> lists it.
\<close>

theorem expired_entry_counted_counterexample:
  "returned (Option.bind (constructed default_config)
      (\<lambda>c0. cache_set c0 5 (js ''k'') (JStr (js ''v'')) (Some 5))) = Some stale_cache \<and>
   map_of (store stale_cache) (js ''k'')
     = Some \<lparr> val = JStr (js ''v''), createdAt = 5, accessedAt = 5, expiresAt = Some 10, ttl = Some 5 \<rparr> \<and>
   (10::int) < 20 \<and>
   fst (get stale_cache 20 (js ''k'')) = JNull \<and>
   cache_size stale_cache = 1 \<and>
   keys stale_cache None = Some [(js ''k'')]"
proof -
  have "returned (Option.bind (constructed default_config)
      (\<lambda>c0. cache_set c0 5 (js ''k'') (JStr (js ''v'')) (Some 5))) = Some stale_cache"
    by (simp add: returned_def constructed_def default_config_def constructor_def nullish_def
        cache_set_def Let_def checkMemoryLimits_def estimateMemoryUsage_def json_escape_def
        high_surrogate_def low_surrogate_def
        checkMemoryLoop.simps stale_cache_def)
  then show ?thesis
    by (simp add: stale_cache_def get_def isExpired_def cache_size_def keys_def)
qed

text \<open>
  Claim C5 as amended: an entry of the table whose \<open>expiresAt\<close> (a timestamp other than
  0) has passed is absent to \<open>get\<close> and \<open>has\<close> only: \<open>get\<close> returns \<open>null\<close>,
  \<open>has\<close> returns false, and either call removes the entry. Until such a call or a sweep
  removes it, \<open>keys()\<close> lists its key and \<open>size()\<close>, the number of listed keys, counts
  it.
\<close>

theorem expired_entry_absent_to_get_has_only:
  assumes "map_of (store c) k = Some e" and "expiresAt e = Some x" and "x \<noteq> 0" and "x < now"
  shows "fst (get c now k) = JNull \<and>
         fst (has c now k) = False \<and>
         map_of (store (snd (get c now k))) k = None \<and>
         map_of (store (snd (has c now k))) k = None \<and>
         keys c None = Some (map fst (store c)) \<and>
         k \<in> set (map fst (store c)) \<and>
         cache_size c = length (map fst (store c))"
proof -
  have ex: "isExpired e now" using assms(2-4) by (simp add: isExpired_def)
  have mem: "k \<in> set (map fst (store c))"
    using assms(1) by (metis map_of_eq_None_iff option.distinct(1) set_map)
  show ?thesis
    using assms(1) ex mem
    by (simp add: get_def has_def keys_def cache_size_def AList.delete_conv')
qed

theorem expired_entry_absent_to_get_has_only_witness:
  "map_of (store stale_cache) (js ''k'')
     = Some \<lparr> val = JStr (js ''v''), createdAt = 5, accessedAt = 5, expiresAt = Some 10, ttl = Some 5 \<rparr> \<and>
   (10::int) \<noteq> 0 \<and> (10::int) < 20 \<and>
   fst (get stale_cache 20 (js ''k'')) = JNull \<and>
   fst (has stale_cache 20 (js ''k'')) = False \<and>
   map_of (store (snd (get stale_cache 20 (js ''k'')))) (js ''k'') = None \<and>
   keys stale_cache None = Some [(js ''k'')] \<and>
   cache_size stale_cache = 1"
proof -
  have m: "map_of (store stale_cache) (js ''k'')
     = Some \<lparr> val = JStr (js ''v''), createdAt = 5, accessedAt = 5, expiresAt = Some 10, ttl = Some 5 \<rparr>"
    by (simp add: stale_cache_def)
  have s: "store stale_cache = [((js ''k''), \<lparr> val = JStr (js ''v''), createdAt = 5, accessedAt = 5,
                                       expiresAt = Some 10, ttl = Some 5 \<rparr>)]"
    by (simp add: stale_cache_def)
  show ?thesis
    using expired_entry_absent_to_get_has_only [OF m, of 10 20] s by simp
qed

subsection \<open>The capacity bound and the empty key\<close>

text \<open>
  Claim C3 says that the table never holds more than \<open>maxSize\<close> entries after a \<open>set\<close>
  returns, for any keys, the empty string included. On a cache with \<open>maxSize = 1\<close>,
  \<open>set('', 'v')\<close> followed by \<open>set('a', 'v')\<close> leaves two entries: the victim search
  picks the key \<open>''\<close>, which the test \<open>if (keyToEvict)\<close> takes for "no victim", so
  nothing is evicted (the eviction counter stays 0) before \<open>'a'\<close> is inserted.
\<close>

theorem empty_key_exceeds_maxSize:
  "Option.bind (constructed one_slot_config) (\<lambda>c0.
   Option.bind (returned (cache_set c0 0 [] (JStr (js ''v'')) None)) (\<lambda>c1.
   Option.bind (returned (cache_set c1 0 (js ''a'') (JStr (js ''v'')) None)) (\<lambda>c2.
     Some (map fst (store c2), cache_size c2, maxSize c2, evictions c2))))
   = Some ([[], (js ''a'')], 2, 1, 0)"
  by (simp add: returned_def constructed_def one_slot_config_def constructor_def nullish_def
      cache_set_def Let_def checkMemoryLimits_def estimateMemoryUsage_def json_escape_def
        high_surrogate_def low_surrogate_def
      checkMemoryLoop.simps evictOne_def keyToEvict_def cache_size_def)

subsection \<open>The victim of an eviction\<close>

lemmas scenario_defs = returned_def constructed_def constructor_def nullish_def
  cache_set_def Let_def checkMemoryLimits_def estimateMemoryUsage_def json_escape_def
        high_surrogate_def low_surrogate_def
  checkMemoryLoop.simps evictOne_def keyToEvict_def get_def isExpired_def

lemma lru_scan_result:
  "lru_scan xs (ot, ok) = (t, k) \<Longrightarrow>
     (case t of
        None \<Rightarrow> xs = [] \<and> ot = None \<and> k = ok
      | Some tv \<Rightarrow> ((k, tv) \<in> set xs \<or> (ot = Some tv \<and> k = ok)) \<and>
                   (\<forall>(k', t') \<in> set xs. tv \<le> t') \<and> (\<forall>a. ot = Some a \<longrightarrow> tv \<le> a))"
proof (induction xs arbitrary: ot ok)
  case Nil
  then show ?case by (auto split: option.splits)
next
  case (Cons p xs)
  obtain k' t' where p: "p = (k', t')" by (cases p)
  show ?case
  proof (cases "case ot of None \<Rightarrow> True | Some a \<Rightarrow> t' < a")
    case True
    with Cons.prems p have "lru_scan xs (Some t', k') = (t, k)" by simp
    from Cons.IH [OF this] True p show ?thesis
      by (cases t) (auto split: option.splits)
  next
    case False
    with Cons.prems p have "lru_scan xs (ot, ok) = (t, k)" by simp
    from Cons.IH [OF this] False p show ?thesis
      by (cases t) (auto split: option.splits)
  qed
qed

lemma fifo_scan_result:
  "fifo_scan xs (ot, ok) = (t, k) \<Longrightarrow>
     (case t of
        None \<Rightarrow> xs = [] \<and> ot = None \<and> k = ok
      | Some tv \<Rightarrow> ((\<exists>e. (k, e) \<in> set xs \<and> createdAt e = tv) \<or> (ot = Some tv \<and> k = ok)) \<and>
                   (\<forall>(k', e') \<in> set xs. tv \<le> createdAt e') \<and> (\<forall>a. ot = Some a \<longrightarrow> tv \<le> a))"
proof (induction xs arbitrary: ot ok)
  case Nil
  then show ?case by (auto split: option.splits)
next
  case (Cons p xs)
  obtain k' e' where p: "p = (k', e')" by (cases p)
  show ?case
  proof (cases "case ot of None \<Rightarrow> True | Some a \<Rightarrow> createdAt e' < a")
    case True
    with Cons.prems p have "fifo_scan xs (Some (createdAt e'), k') = (t, k)" by simp
    from Cons.IH [OF this] True p show ?thesis
      by (cases t) (auto split: option.splits)
  next
    case False
    with Cons.prems p have "fifo_scan xs (ot, ok) = (t, k)" by simp
    from Cons.IH [OF this] False p show ?thesis
      by (cases t) (auto split: option.splits)
  qed
qed

lemma lru_victim_min:
  assumes "evictionPolicy c = LRU" and "accessOrder c \<noteq> []"
  shows "\<exists>t. (keyToEvict c, t) \<in> set (accessOrder c) \<and> (\<forall>(k', t') \<in> set (accessOrder c). t \<le> t')"
proof -
  obtain t k where r: "lru_scan (accessOrder c) (None, []) = (t, k)" by (cases "lru_scan (accessOrder c) (None, [])")
  from lru_scan_result [OF r] assms(2) obtain tv where
    "t = Some tv" "(k, tv) \<in> set (accessOrder c)" "\<forall>(k', t') \<in> set (accessOrder c). tv \<le> t'"
    by (cases t) auto
  moreover have "keyToEvict c = k" using assms(1) r by (simp add: keyToEvict_def)
  ultimately show ?thesis by blast
qed

lemma fifo_victim_min:
  assumes "evictionPolicy c = FIFO" and "store c \<noteq> []"
  shows "\<exists>e. (keyToEvict c, e) \<in> set (store c) \<and> (\<forall>(k', e') \<in> set (store c). createdAt e \<le> createdAt e')"
proof -
  obtain t k where r: "fifo_scan (store c) (None, []) = (t, k)" by (cases "fifo_scan (store c) (None, [])")
  from fifo_scan_result [OF r] assms(2) obtain e where
    "(k, e) \<in> set (store c)" "\<forall>(k', e') \<in> set (store c). createdAt e \<le> createdAt e'"
    by (cases t) auto
  moreover have "keyToEvict c = k" using assms(1) r by (simp add: keyToEvict_def)
  ultimately show ?thesis by blast
qed

lemma evictOne_removes_only_victim:
  "map_of (store c) k \<noteq> None \<Longrightarrow> map_of (store (evictOne c)) k = None \<Longrightarrow> k = keyToEvict c"
  by (auto simp: evictOne_def AList.delete_conv' split: if_splits)

lemma evictOne_store:
  "store c \<noteq> [] \<Longrightarrow> keyToEvict c \<noteq> [] \<Longrightarrow>
   store (evictOne c) = AList.delete (keyToEvict c) (store c) \<and>
   accessOrder (evictOne c) = AList.delete (keyToEvict c) (accessOrder c) \<and>
   evictions (evictOne c) = evictions c + 1"
  by (simp add: evictOne_def)






text \<open>
  Claim C6: under LRU, on a cache whose table and order index are not empty, the key that
  \<open>evictOne\<close> selects is a key of the order index whose recorded value is the smallest;
  no other key leaves the table; and the selected key, unless it is the empty string,
  is deleted from the table and from the index. In the test of the test suite
  (\<open>maxSize = 3\<close>; \<open>k1\<close>, \<open>k2\<close>, \<open>k3\<close> inserted, \<open>k1\<close> read, \<open>k4\<close> inserted) the
  read returns \<open>v1\<close>, the evicted key is \<open>k2\<close>, and \<open>k1\<close>, \<open>k3\<close>, \<open>k4\<close> remain.
\<close>

theorem lru_evicts_smallest_order_index:
  "(evictionPolicy c = LRU \<and> store c \<noteq> [] \<and> accessOrder c \<noteq> [] \<longrightarrow>
      (\<exists>t. (keyToEvict c, t) \<in> set (accessOrder c) \<and>
           (\<forall>(k', t') \<in> set (accessOrder c). t \<le> t')) \<and>
      (\<forall>k. map_of (store c) k \<noteq> None \<and> map_of (store (evictOne c)) k = None
           \<longrightarrow> k = keyToEvict c) \<and>
      (keyToEvict c \<noteq> [] \<longrightarrow>
         store (evictOne c) = AList.delete (keyToEvict c) (store c) \<and>
         accessOrder (evictOne c) = AList.delete (keyToEvict c) (accessOrder c))) \<and>
   eviction_test LRU = Some (JStr (js ''v1''), [(js ''k2'')], [(js ''k1''), (js ''k3''), (js ''k4'')])"
proof -
  have "eviction_test LRU = Some (JStr (js ''v1''), [(js ''k2'')], [(js ''k1''), (js ''k3''), (js ''k4'')])"
    by (simp add: eviction_test_def three_slot_config_def scenario_defs)
  then show ?thesis
    using lru_victim_min [of c] evictOne_removes_only_victim [of c] evictOne_store [of c]
    by blast
qed

theorem lru_evicts_smallest_order_index_witness:
  "evictionPolicy lru_full_cache = LRU \<and> store lru_full_cache \<noteq> [] \<and>
   accessOrder lru_full_cache = [((js ''k1''), 4), ((js ''k2''), 2), ((js ''k3''), 3)] \<and>
   keyToEvict lru_full_cache = (js ''k2'') \<and>
   map fst (store (evictOne lru_full_cache)) = [(js ''k1''), (js ''k3'')] \<and>
   accessOrder (evictOne lru_full_cache) = [((js ''k1''), 4), ((js ''k3''), 3)]"
  using lru_evicts_smallest_order_index [of lru_full_cache]
  by (simp add: lru_full_cache_def keyToEvict_def)



subsection \<open>Memory enforcement and entries that never expire\<close>

lemma cache_set_inserted:
  "cache_set c now key v ttl_arg = checkMemoryLimits (inserted c now key v ttl_arg)"
  by (simp add: cache_set_def inserted_def new_entry_def Let_def)

lemma evictOne_fields [simp]:
  "maxMemory (evictOne c) = maxMemory c" "evictionPolicy (evictOne c) = evictionPolicy c"
  "maxSize (evictOne c) = maxSize c" "defaultTTL (evictOne c) = defaultTTL c"
  "nextAccessTime (evictOne c) = nextAccessTime c"
  by (simp_all add: evictOne_def)

lemma dom_delete: "fst ` set (AList.delete k al) = fst ` set al - {k}"
  by (induction al) auto

lemma length_delete_less: "k \<in> fst ` set al \<Longrightarrow> length (AList.delete k al) < length al"
proof (induction al)
  case Nil
  then show ?case by simp
next
  case (Cons p al)
  have "length (AList.delete k al) \<le> length al" by (rule AList.length_delete_le)
  with Cons show ?case by (cases "fst p = k") (auto simp: less_Suc_eq_le)
qed

lemma keyToEvict_in_store:
  assumes "evictable c" and "store c \<noteq> []"
  shows "keyToEvict c \<in> fst ` set (store c)"
proof (cases "evictionPolicy c")
  case LRU
  with assms have "accessOrder c \<noteq> []" by (auto simp: evictable_def)
  from lru_victim_min [OF LRU this] obtain t where "(keyToEvict c, t) \<in> set (accessOrder c)" by blast
  then have "keyToEvict c \<in> fst ` set (accessOrder c)" by force
  with LRU assms(1) show ?thesis by (simp add: evictable_def)
next
  case FIFO
  from fifo_victim_min [OF FIFO assms(2)] obtain e where "(keyToEvict c, e) \<in> set (store c)" by blast
  then show ?thesis by force
qed

lemma evictOne_evictable: "evictable c \<Longrightarrow> evictable (evictOne c)"
  unfolding evictOne_def evictable_def by (force simp add: dom_delete)

lemma evictOne_serializable: "serializable c \<Longrightarrow> serializable (evictOne c)"
  by (auto simp: evictOne_def serializable_def AList.delete_eq)

lemma evictOne_shrinks:
  assumes "evictable c" and "store c \<noteq> []"
  shows "length (store (evictOne c)) < length (store c)"
proof -
  have in_store: "keyToEvict c \<in> fst ` set (store c)" using assms by (rule keyToEvict_in_store)
  with assms(1) have "keyToEvict c \<noteq> []" unfolding evictable_def by metis
  with assms(2) in_store show ?thesis by (simp add: evictOne_def length_delete_less)
qed

lemma checkMemoryLoop_returns:
  "evictable c \<Longrightarrow> \<exists>c'. checkMemoryLoop m c = Some c'"
proof (induction "length (store c)" arbitrary: c rule: less_induct)
  case less
  show ?case
  proof (cases "maxMemory c < m \<and> 0 < length (store c)")
    case True
    then have ne: "store c \<noteq> []" by auto
    have "length (store (evictOne c)) < length (store c)"
      using less.prems ne by (rule evictOne_shrinks)
    from less.hyps [OF this evictOne_evictable [OF less.prems]]
    obtain c' where "checkMemoryLoop m (evictOne c) = Some c'" by blast
    with True show ?thesis by (subst checkMemoryLoop.simps) simp
  next
    case False
    then show ?thesis by (subst checkMemoryLoop.simps) auto
  qed
qed

lemma checkMemoryLoop_result:
  assumes "checkMemoryLoop m c = Some c'"
  shows "maxMemory c' = maxMemory c \<and> ((m \<le> maxMemory c \<and> c' = c) \<or> store c' = [])"
  using assms
proof (induct rule: checkMemoryLoop.raw_induct [rotated, consumes 1])
  case (1 loop m c c')
  show ?case
  proof (cases "maxMemory c < m \<and> 0 < length (store c)")
    case True
    with 1(2) have "loop m (evictOne c) = Some c'" by simp
    from 1(1) [OF this] True show ?thesis by auto
  next
    case False
    with 1(2) show ?thesis by auto
  qed
qed

lemma estimate_loop_ok:
  "\<forall>(k, e) \<in> set es. \<exists>s. JSON_stringify (val e) = Text s \<Longrightarrow> \<exists>m. estimate_loop es t = Inr m"
proof (induction es arbitrary: t)
  case Nil
  then show ?case by simp
next
  case (Cons p es)
  obtain k e where p: "p = (k, e)" by (cases p)
  from Cons.prems p obtain s where s: "JSON_stringify (val e) = Text s" by auto
  from Cons.prems have "\<forall>(k, e) \<in> set es. \<exists>s. JSON_stringify (val e) = Text s" by simp
  from Cons.IH [OF this] show ?case by (simp add: p s)
qed

lemma set_update_subset: "set (AList.update k v al) \<subseteq> insert (k, v) (set al)"
  by (induction al) auto

lemma inserted_evictable:
  assumes "evictable c" and "key \<noteq> []"
  shows "evictable (inserted c now key v ttl_arg)"
proof -
  define c1 where "c1 = (if map_of (store c) key = None \<and> int (length (store c)) \<ge> maxSize c
                then evictOne c else c)"
  have "evictable c1" using assms(1) by (simp add: c1_def evictOne_evictable)
  then show ?thesis using assms(2)
    by (auto simp: inserted_def Let_def c1_def [symmetric] evictable_def AList.dom_update)
qed

lemma inserted_serializable:
  assumes "serializable c" and "JSON_stringify v = Text s"
  shows "serializable (inserted c now key v ttl_arg)"
proof -
  define c1 where "c1 = (if map_of (store c) key = None \<and> int (length (store c)) \<ge> maxSize c
                then evictOne c else c)"
  have "serializable c1" using assms(1) by (simp add: c1_def evictOne_serializable)
  moreover have "set (AList.update key (new_entry c now v ttl_arg) (store c1))
      \<subseteq> insert (key, new_entry c now v ttl_arg) (set (store c1))" by (rule set_update_subset)
  moreover have "val (new_entry c now v ttl_arg) = v" by (simp add: new_entry_def)
  ultimately show ?thesis using assms(2)
    by (fastforce simp: inserted_def Let_def c1_def [symmetric] serializable_def)
qed

lemma inserted_lookup:
  "map_of (store (inserted c now key v ttl_arg)) key = Some (new_entry c now v ttl_arg)"
  by (simp add: inserted_def Let_def AList.update_conv')

lemma inserted_maxMemory: "maxMemory (inserted c now key v ttl_arg) = maxMemory c"
  by (simp add: inserted_def Let_def)

lemma cache_set_result:
  assumes "cache_set c now key v ttl_arg = Some (Return c')"
  shows "\<exists>m. estimateMemoryUsage (inserted c now key v ttl_arg) = Inr m \<and>
             maxMemory c' = maxMemory c \<and>
             ((m \<le> maxMemory c \<and> c' = inserted c now key v ttl_arg) \<or> store c' = [])"
proof -
  let ?c3 = "inserted c now key v ttl_arg"
  from assms have r: "checkMemoryLimits ?c3 = Some (Return c')" by (simp add: cache_set_inserted)
  then obtain m where m: "estimateMemoryUsage ?c3 = Inr m"
    by (cases "estimateMemoryUsage ?c3") (auto simp: checkMemoryLimits_def)
  with r have "checkMemoryLoop m ?c3 = Some c'" by (auto simp: checkMemoryLimits_def)
  from checkMemoryLoop_result [OF this] m show ?thesis by (auto simp: inserted_maxMemory)
qed

lemma cache_set_returns:
  assumes "evictable c" and "serializable c" and "key \<noteq> []" and "JSON_stringify v = Text s"
  shows "\<exists>c'. cache_set c now key v ttl_arg = Some (Return c')"
proof -
  let ?c3 = "inserted c now key v ttl_arg"
  have "serializable ?c3" using assms(2,4) by (rule inserted_serializable)
  then obtain m where m: "estimateMemoryUsage ?c3 = Inr m"
    using estimate_loop_ok [of "store ?c3" 0] by (auto simp: serializable_def estimateMemoryUsage_def)
  have "evictable ?c3" using assms(1,3) by (rule inserted_evictable)
  from checkMemoryLoop_returns [OF this] obtain c' where "checkMemoryLoop m ?c3 = Some c'" by blast
  with m show ?thesis by (simp add: cache_set_inserted checkMemoryLimits_def)
qed

text \<open>
  Claim C1 as stated, refuted: on a cache with \<open>maxMemory = 10\<close>, \<open>set('a', 'x')\<close>
  estimates 72 bytes after the insertion, which no eviction short of the entry itself can
  bring under the limit. The call returns without an exception, but the single entry is
  not retained: the table is left empty, with one eviction counted.
\<close>

theorem single_entry_evicted_counterexample:
  "Option.bind (constructed tiny_memory_config) (\<lambda>c0.
   Option.bind (returned (cache_set c0 0 (js ''a'') (JStr (js ''x'')) None)) (\<lambda>c1.
     Some (estimateMemoryUsage (inserted c0 0 (js ''a'') (JStr (js ''x'')) None), maxMemory c1,
           store c1, evictions c1)))
   = Some (Inr 72, 10, [], 1)"
  by (simp add: scenario_defs tiny_memory_config_def inserted_def new_entry_def)

lemma estimate_empty: "store c = [] \<Longrightarrow> estimateMemoryUsage c = Inr 0"
  by (simp add: estimateMemoryUsage_def)

lemma single_entry_evicted:
  assumes "store c = []" and "accessOrder c = []" and "key \<noteq> []"
    and "JSON_stringify v = Text s"
    and "maxMemory c < int (length key) * 2 + int (length s) * 2 + 64"
  shows "\<exists>c'. cache_set c now key v ttl_arg = Some (Return c') \<and> store c' = [] \<and>
              accessOrder c' = [] \<and> evictions c' = evictions c + 1"
  using assms
  by (cases "evictionPolicy c")
     (simp_all add: cache_set_def Let_def evictOne_def keyToEvict_def checkMemoryLimits_def
        estimateMemoryUsage_def checkMemoryLoop.simps)

lemma cache_set_kept_when_fits:
  assumes "estimateMemoryUsage (inserted c now key v ttl_arg) = Inr m" and "m \<le> maxMemory c"
  shows "cache_set c now key v ttl_arg = Some (Return (inserted c now key v ttl_arg))"
proof -
  have "checkMemoryLoop m (inserted c now key v ttl_arg) = Some (inserted c now key v ttl_arg)"
    using assms(2) by (subst checkMemoryLoop.simps) (simp add: inserted_maxMemory)
  with assms(1) show ?thesis by (simp add: cache_set_inserted checkMemoryLimits_def)
qed

lemma inserted_evictions: "evictions (inserted c now key v ttl_arg) \<le> evictions c + 1"
  by (simp add: inserted_def Let_def evictOne_def)

lemma inserted_without_eviction:
  assumes "map_of (store c) key \<noteq> None \<or> int (length (store c)) < maxSize c"
  shows "store (inserted c now key v ttl_arg) = AList.update key (new_entry c now v ttl_arg) (store c) \<and>
         evictions (inserted c now key v ttl_arg) = evictions c"
  using assms by (auto simp: inserted_def Let_def)

lemma estimate_loop_lower:
  "estimate_loop es t = Inr m \<Longrightarrow>
     t \<le> m \<and> (\<forall>k e s. (k, e) \<in> set es \<and> JSON_stringify (val e) = Text s
                     \<longrightarrow> t + int (length k) * 2 + int (length s) * 2 + 64 \<le> m)"
proof (induction es arbitrary: t)
  case Nil
  then show ?case by simp
next
  case (Cons p es)
  obtain k0 e0 where p: "p = (k0, e0)" by (cases p)
  from Cons.prems p obtain s0 where s0: "JSON_stringify (val e0) = Text s0"
    by (cases "JSON_stringify (val e0)") auto
  let ?t' = "t + int (length k0) * 2 + int (length s0) * 2 + 64"
  from Cons.prems p s0 have "estimate_loop es ?t' = Inr m" by simp
  from Cons.IH [OF this] have le: "?t' \<le> m"
    and rest: "\<forall>k e s. (k, e) \<in> set es \<and> JSON_stringify (val e) = Text s
                     \<longrightarrow> ?t' + int (length k) * 2 + int (length s) * 2 + 64 \<le> m"
    by blast+
  have "t \<le> m" using le by linarith
  moreover have "t + int (length k) * 2 + int (length s) * 2 + 64 \<le> m"
    if "(k, e) \<in> set (p # es)" and "JSON_stringify (val e) = Text s" for k e s
  proof (cases "(k, e) = p")
    case True
    with p that(2) s0 have "k = k0" "s = s0" by auto
    with le show ?thesis by simp
  next
    case False
    with that(1) have "(k, e) \<in> set es" by auto
    with rest that(2) have "?t' + int (length k) * 2 + int (length s) * 2 + 64 \<le> m" by blast
    then show ?thesis by linarith
  qed
  ultimately show ?case by blast
qed

lemma oversize_entry_empties:
  assumes "evictable c" and "serializable c" and "key \<noteq> []" and "JSON_stringify v = Text s"
    and "maxMemory c < int (length key) * 2 + int (length s) * 2 + 64"
  shows "\<exists>c'. cache_set c now key v ttl_arg = Some (Return c') \<and> store c' = []"
proof -
  let ?c3 = "inserted c now key v ttl_arg"
  from cache_set_returns [OF assms(1-4)] obtain c'
    where r: "cache_set c now key v ttl_arg = Some (Return c')" by blast
  from cache_set_result [OF r] obtain m where m: "estimateMemoryUsage ?c3 = Inr m"
    and d: "(m \<le> maxMemory c \<and> c' = ?c3) \<or> store c' = []" by blast
  have "(key, new_entry c now v ttl_arg) \<in> set (store ?c3)"
    using inserted_lookup [of c now key v ttl_arg] by (rule map_of_SomeD)
  moreover have "JSON_stringify (val (new_entry c now v ttl_arg)) = Text s"
    using assms(4) by (simp add: new_entry_def)
  ultimately have "0 + int (length key) * 2 + int (length s) * 2 + 64 \<le> m"
    using estimate_loop_lower [of "store ?c3" 0 m] m by (auto simp: estimateMemoryUsage_def)
  with assms(5) have "maxMemory c < m" by linarith
  with d have "store c' = []" by auto
  with r show ?thesis by blast
qed

text \<open>
  Claim C1 as amended. For every cache state and every \<open>set(key, value, ttl)\<close>:
  \<^item> if the call returns, the table it leaves has an estimated usage at or below
    \<open>maxMemory\<close> or is empty;
  \<^item> evictions for memory happen only when the usage estimated after the insertion
    exceeds \<open>maxMemory\<close>: when that estimate is within the limit the call returns the
    state it had reached at that point, in which the new entry is stored and at most the
    one capacity eviction has been counted, and if moreover the key was already present
    or the table was below \<open>maxSize\<close>, the table is the old one with the new entry set
    and no eviction is counted at all;
  \<^item> the call returns, raising nothing, whenever no entry is stored under the empty
    key, the new key is not empty, the order index matches the table (under LRU) and
    the stored values and the new one are serializable;
  \<^item> the last single entry is not retained: under those same conditions, when the new
    entry's own estimate \<open>2 * |key| + 2 * |s| + 64\<close> (\<open>s\<close> the JSON text of the value)
    exceeds \<open>maxMemory\<close>, so that usage cannot be brought under the limit, the call
    returns with an empty table; on a cache that was empty this takes exactly one
    eviction.
\<close>

theorem set_memory_enforcement:
  "(\<forall>c'. cache_set c now key v ttl_arg = Some (Return c') \<longrightarrow>
      (\<exists>m. estimateMemoryUsage c' = Inr m \<and> (m \<le> maxMemory c' \<or> store c' = []))) \<and>
   (\<forall>m. estimateMemoryUsage (inserted c now key v ttl_arg) = Inr m \<and> m \<le> maxMemory c \<longrightarrow>
      cache_set c now key v ttl_arg = Some (Return (inserted c now key v ttl_arg)) \<and>
      map_of (store (inserted c now key v ttl_arg)) key = Some (new_entry c now v ttl_arg) \<and>
      evictions (inserted c now key v ttl_arg) \<le> evictions c + 1 \<and>
      (map_of (store c) key \<noteq> None \<or> int (length (store c)) < maxSize c \<longrightarrow>
         store (inserted c now key v ttl_arg)
           = AList.update key (new_entry c now v ttl_arg) (store c) \<and>
         evictions (inserted c now key v ttl_arg) = evictions c)) \<and>
   (evictable c \<and> serializable c \<and> key \<noteq> [] \<and> JSON_stringify v = Text s \<longrightarrow>
      (\<exists>c'. cache_set c now key v ttl_arg = Some (Return c'))) \<and>
   (evictable c \<and> serializable c \<and> key \<noteq> [] \<and> JSON_stringify v = Text s \<and>
    maxMemory c < int (length key) * 2 + int (length s) * 2 + 64 \<longrightarrow>
      (\<exists>c'. cache_set c now key v ttl_arg = Some (Return c') \<and> store c' = [])) \<and>
   (store c = [] \<and> accessOrder c = [] \<and> key \<noteq> [] \<and> JSON_stringify v = Text s \<and>
    maxMemory c < int (length key) * 2 + int (length s) * 2 + 64 \<longrightarrow>
      (\<exists>c'. cache_set c now key v ttl_arg = Some (Return c') \<and> store c' = [] \<and>
            accessOrder c' = [] \<and> evictions c' = evictions c + 1))"
proof (intro conjI allI impI)
  fix c'
  assume r: "cache_set c now key v ttl_arg = Some (Return c')"
  from cache_set_result [OF r] obtain m where
    m: "estimateMemoryUsage (inserted c now key v ttl_arg) = Inr m"
    and mm: "maxMemory c' = maxMemory c"
    and d: "(m \<le> maxMemory c \<and> c' = inserted c now key v ttl_arg) \<or> store c' = []"
    by blast
  from d show "\<exists>m. estimateMemoryUsage c' = Inr m \<and> (m \<le> maxMemory c' \<or> store c' = [])"
  proof
    assume "m \<le> maxMemory c \<and> c' = inserted c now key v ttl_arg"
    with m mm show ?thesis by auto
  next
    assume "store c' = []"
    then show ?thesis by (simp add: estimate_empty)
  qed
next
  fix m
  assume "estimateMemoryUsage (inserted c now key v ttl_arg) = Inr m \<and> m \<le> maxMemory c"
  then show "cache_set c now key v ttl_arg = Some (Return (inserted c now key v ttl_arg))"
    using cache_set_kept_when_fits by blast
next
  show "map_of (store (inserted c now key v ttl_arg)) key = Some (new_entry c now v ttl_arg)"
    by (rule inserted_lookup)
next
  show "evictions (inserted c now key v ttl_arg) \<le> evictions c + 1"
    by (rule inserted_evictions)
next
  assume "map_of (store c) key \<noteq> None \<or> int (length (store c)) < maxSize c"
  then show "store (inserted c now key v ttl_arg)
      = AList.update key (new_entry c now v ttl_arg) (store c)"
    using inserted_without_eviction by blast
next
  assume "map_of (store c) key \<noteq> None \<or> int (length (store c)) < maxSize c"
  then show "evictions (inserted c now key v ttl_arg) = evictions c"
    using inserted_without_eviction by blast
next
  assume "evictable c \<and> serializable c \<and> key \<noteq> [] \<and> JSON_stringify v = Text s"
  then show "\<exists>c'. cache_set c now key v ttl_arg = Some (Return c')"
    using cache_set_returns by blast
next
  assume "evictable c \<and> serializable c \<and> key \<noteq> [] \<and> JSON_stringify v = Text s \<and>
    maxMemory c < int (length key) * 2 + int (length s) * 2 + 64"
  then show "\<exists>c'. cache_set c now key v ttl_arg = Some (Return c') \<and> store c' = []"
    using oversize_entry_empties by blast
next
  assume "store c = [] \<and> accessOrder c = [] \<and> key \<noteq> [] \<and> JSON_stringify v = Text s \<and>
    maxMemory c < int (length key) * 2 + int (length s) * 2 + 64"
  then show "\<exists>c'. cache_set c now key v ttl_arg = Some (Return c') \<and> store c' = [] \<and>
            accessOrder c' = [] \<and> evictions c' = evictions c + 1"
    using single_entry_evicted by blast
qed

theorem set_memory_enforcement_witness:
  "map_of (store small_cache) (js ''a'') = Some (entry_at ''x'' 1 1) \<and>
   estimateMemoryUsage (inserted small_cache 5 (js ''a'') (JStr (js ''y'')) None) = Inr 72 \<and>
   (72::int) \<le> maxMemory small_cache \<and>
   cache_set small_cache 5 (js ''a'') (JStr (js ''y'')) None
     = Some (Return (inserted small_cache 5 (js ''a'') (JStr (js ''y'')) None)) \<and>
   store (inserted small_cache 5 (js ''a'') (JStr (js ''y'')) None)
     = [(js ''a'', \<lparr> val = JStr (js ''y''), createdAt = 5, accessedAt = 5,
                      expiresAt = Some 3600005, ttl = Some 3600000 \<rparr>)] \<and>
   evictions (inserted small_cache 5 (js ''a'') (JStr (js ''y'')) None) = 0 \<and>
   evictable small_cache \<and> serializable small_cache \<and>
   JSON_stringify (JStr (js ''0123456789abcdef'')) = Text (0x22 # js ''0123456789abcdef'' @ [0x22]) \<and>
   maxMemory small_cache < int (length (js ''b'')) * 2 + 18 * 2 + 64 \<and>
   cache_set small_cache 5 (js ''b'') (JStr (js ''0123456789abcdef'')) None
     = Some (Return (small_cache\<lparr>store := [], accessOrder := [], nextAccessTime := 3,
                                  evictions := 2\<rparr>)) \<and>
   store tiny_memory_cache = [] \<and> accessOrder tiny_memory_cache = [] \<and>
   JSON_stringify (JStr (js ''x'')) = Text [0x22, cu CHR ''x'', 0x22] \<and>
   maxMemory tiny_memory_cache < int (length (js ''a'')) * 2 + 3 * 2 + 64 \<and>
   cache_set tiny_memory_cache 0 (js ''a'') (JStr (js ''x'')) None
     = Some (Return (tiny_memory_cache\<lparr>nextAccessTime := 2, evictions := 1\<rparr>)) \<and>
   estimateMemoryUsage (tiny_memory_cache\<lparr>nextAccessTime := 2, evictions := 1\<rparr>) = Inr 0"
proof -
  have fits: "map_of (store small_cache) (js ''a'') = Some (entry_at ''x'' 1 1)"
    "estimateMemoryUsage (inserted small_cache 5 (js ''a'') (JStr (js ''y'')) None) = Inr 72"
    "(72::int) \<le> maxMemory small_cache"
    by (simp_all add: small_cache_def inserted_def new_entry_def Let_def nullish_def
        estimateMemoryUsage_def json_escape_def high_surrogate_def low_surrogate_def)
  have kept: "cache_set small_cache 5 (js ''a'') (JStr (js ''y'')) None
      = Some (Return (inserted small_cache 5 (js ''a'') (JStr (js ''y'')) None)) \<and>
     store (inserted small_cache 5 (js ''a'') (JStr (js ''y'')) None)
      = AList.update (js ''a'') (new_entry small_cache 5 (JStr (js ''y'')) None) (store small_cache) \<and>
     evictions (inserted small_cache 5 (js ''a'') (JStr (js ''y'')) None) = evictions small_cache"
    using set_memory_enforcement [where c = small_cache and now = 5 and key = "js ''a''"
        and v = "JStr (js ''y'')" and ttl_arg = None] fits
    by simp
  have upd: "AList.update (js ''a'') (new_entry small_cache 5 (JStr (js ''y'')) None) (store small_cache)
      = [(js ''a'', \<lparr> val = JStr (js ''y''), createdAt = 5, accessedAt = 5,
                      expiresAt = Some 3600005, ttl = Some 3600000 \<rparr>)]"
    "evictions small_cache = 0"
    by (simp_all add: small_cache_def new_entry_def nullish_def)
  have over: "evictable small_cache" "serializable small_cache"
    "JSON_stringify (JStr (js ''0123456789abcdef'')) = Text (0x22 # js ''0123456789abcdef'' @ [0x22])"
    "maxMemory small_cache < int (length (js ''b'')) * 2 + 18 * 2 + 64"
    by (simp_all add: evictable_def serializable_def small_cache_def entry_at_def
        json_escape_def high_surrogate_def low_surrogate_def)
  have emptied: "cache_set small_cache 5 (js ''b'') (JStr (js ''0123456789abcdef'')) None
     = Some (Return (small_cache\<lparr>store := [], accessOrder := [], nextAccessTime := 3,
                                  evictions := 2\<rparr>))"
    by (simp add: scenario_defs small_cache_def entry_at_def)
  have tiny: "store tiny_memory_cache = []" "accessOrder tiny_memory_cache = []"
    "JSON_stringify (JStr (js ''x'')) = Text [0x22, cu CHR ''x'', 0x22]"
    "maxMemory tiny_memory_cache < int (length (js ''a'')) * 2 + 3 * 2 + 64"
    "estimateMemoryUsage (tiny_memory_cache\<lparr>nextAccessTime := 2, evictions := 1\<rparr>) = Inr 0"
    by (simp_all add: tiny_memory_cache_def json_escape_def
        high_surrogate_def low_surrogate_def
        estimateMemoryUsage_def)
  have ev: "cache_set tiny_memory_cache 0 (js ''a'') (JStr (js ''x'')) None
     = Some (Return (tiny_memory_cache\<lparr>nextAccessTime := 2, evictions := 1\<rparr>))"
    by (simp add: scenario_defs tiny_memory_cache_def)
  from fits kept upd over emptied tiny ev show ?thesis by simp
qed

lemma cleanup_loop_keeps:
  "\<forall>e'. (k, e') \<in> set es \<longrightarrow> \<not> isExpired e' t \<Longrightarrow>
   map_of (store (fst (cleanup_loop t es (c0, n)))) k = map_of (store c0) k"
proof (induction es arbitrary: c0 n)
  case Nil
  then show ?case by simp
next
  case (Cons p es)
  obtain key entry where p: "p = (key, entry)" by (cases p)
  from Cons.prems have rest: "\<forall>e'. (k, e') \<in> set es \<longrightarrow> \<not> isExpired e' t" by simp
  show ?case
  proof (cases "isExpired entry t")
    case True
    with Cons.prems p have "key \<noteq> k" by auto
    with True show ?thesis by (simp add: p Cons.IH [OF rest])
  next
    case False
    then show ?thesis by (simp add: p Cons.IH [OF rest])
  qed
qed

lemma cleanup_keeps_permanent:
  assumes "distinct (map fst (store c))" and "map_of (store c) k = Some e" and "expiresAt e = None"
  shows "map_of (store (snd (cleanup c t))) k = Some e"
proof -
  have "\<forall>e'. (k, e') \<in> set (store c) \<longrightarrow> \<not> isExpired e' t"
  proof (intro allI impI)
    fix e' assume "(k, e') \<in> set (store c)"
    with assms(1) have "map_of (store c) k = Some e'" by (rule map_of_is_SomeI)
    with assms(2,3) show "\<not> isExpired e' t" by (simp add: isExpired_def)
  qed
  from cleanup_loop_keeps [OF this, of c 0] assms(2) show ?thesis
    by (cases "cleanup_loop t (store c) (c, 0)") (simp add: cleanup_def)
qed

lemma get_permanent:
  assumes "map_of (store c) k = Some e" and "expiresAt e = None"
  shows "fst (get c t k) = val e \<and> map_of (store (snd (get c t k))) k = Some (e\<lparr>accessedAt := t\<rparr>)"
  using assms by (simp add: get_def isExpired_def Let_def AList.update_conv')

lemma new_entry_nonpositive:
  "t0 \<le> 0 \<Longrightarrow> expiresAt (new_entry c now v (Some t0)) = None \<and> val (new_entry c now v (Some t0)) = v"
  by (simp add: new_entry_def nullish_def)

lemma cache_set_outcome_state:
  assumes "cache_set c now key v ttl_arg = Some (Throw err c')"
  shows "c' = inserted c now key v ttl_arg"
proof -
  let ?c3 = "inserted c now key v ttl_arg"
  from assms have r: "checkMemoryLimits ?c3 = Some (Throw err c')" by (simp add: cache_set_inserted)
  then show ?thesis
    by (cases "estimateMemoryUsage ?c3") (auto simp: checkMemoryLimits_def)
qed

text \<open>
  Claim C8, for every TTL argument \<open>t0 \<le> 0\<close> (so for 0 and for -1), every cache state,
  key and value.
  \<^item> Whatever entry \<open>set(k, v, t0)\<close> leaves for \<open>k\<close>, whether the call returns or
    throws, holds \<open>v\<close> and has no \<open>expiresAt\<close>.
  \<^item> When the usage estimated after the insertion is within \<open>maxMemory\<close>, the call
    returns and the entry is there: it holds \<open>v\<close>, has no \<open>expiresAt\<close>, \<open>get(k)\<close> on
    the state left returns \<open>v\<close> at every time, and \<open>cleanup\<close> at every time keeps the
    entry (the keys of the table being distinct, as the keys of a \<open>Map\<close> are).
  \<^item> The call returns whenever no entry is stored under the empty key, \<open>k\<close> is not
    empty, the order index matches the table (under LRU) and all values are
    serializable, and then either the memory limit has emptied the table or the entry
    is there.
  \<^item> In any later state that still has for \<open>k\<close> an entry without \<open>expiresAt\<close>, at
    any time \<open>t\<close>: the entry is not expired, \<open>get(k)\<close> returns its value and keeps it
    (refreshing \<open>accessedAt\<close> only), and \<open>cleanup\<close> keeps it unchanged.
\<close>

theorem nonpositive_ttl_never_expires:
  assumes "t0 \<le> 0"
  shows
  "(\<forall>c' e. (cache_set c now k v (Some t0) = Some (Return c') \<or>
             (\<exists>err. cache_set c now k v (Some t0) = Some (Throw err c'))) \<and>
            map_of (store c') k = Some e
        \<longrightarrow> val e = v \<and> expiresAt e = None) \<and>
   (\<forall>m. estimateMemoryUsage (inserted c now k v (Some t0)) = Inr m \<and> m \<le> maxMemory c \<longrightarrow>
      (\<exists>c' e. cache_set c now k v (Some t0) = Some (Return c') \<and>
              map_of (store c') k = Some e \<and> val e = v \<and> expiresAt e = None \<and>
              (\<forall>t. fst (get c' t k) = v) \<and>
              (\<forall>t. distinct (map fst (store c')) \<longrightarrow>
                     map_of (store (snd (cleanup c' t))) k = Some e))) \<and>
   (evictable c \<and> serializable c \<and> k \<noteq> [] \<and> JSON_stringify v = Text s \<longrightarrow>
      (\<exists>c'. cache_set c now k v (Some t0) = Some (Return c') \<and>
            (store c' = [] \<or> (\<exists>e. map_of (store c') k = Some e \<and> val e = v \<and> expiresAt e = None)))) \<and>
   (\<forall>c2 e t. map_of (store c2) k = Some e \<and> expiresAt e = None \<longrightarrow>
      \<not> isExpired e t \<and>
      fst (get c2 t k) = val e \<and>
      map_of (store (snd (get c2 t k))) k = Some (e\<lparr>accessedAt := t\<rparr>) \<and>
      (distinct (map fst (store c2)) \<longrightarrow> map_of (store (snd (cleanup c2 t))) k = Some e))"
proof -
  let ?c3 = "inserted c now k v (Some t0)"
  let ?e = "new_entry c now v (Some t0)"
  have ne: "expiresAt ?e = None" "val ?e = v"
    using new_entry_nonpositive [OF assms] by simp_all
  have present: "val e = v \<and> expiresAt e = None"
    if r: "cache_set c now k v (Some t0) = Some (Return c') \<or>
           (\<exists>err. cache_set c now k v (Some t0) = Some (Throw err c'))"
      and e: "map_of (store c') k = Some e"
    for c' e
  proof -
    from e have "store c' \<noteq> []" by auto
    with r have "c' = ?c3"
      using cache_set_result [of c now k v "Some t0" c'] cache_set_outcome_state [of c now k v "Some t0" _ c']
      by auto
    with e have "e = ?e" by (simp add: inserted_lookup)
    with ne show ?thesis by simp
  qed
  have kept: "\<exists>c' e. cache_set c now k v (Some t0) = Some (Return c') \<and>
              map_of (store c') k = Some e \<and> val e = v \<and> expiresAt e = None \<and>
              (\<forall>t. fst (get c' t k) = v) \<and>
              (\<forall>t. distinct (map fst (store c')) \<longrightarrow>
                     map_of (store (snd (cleanup c' t))) k = Some e)"
    if h: "estimateMemoryUsage ?c3 = Inr m \<and> m \<le> maxMemory c" for m
  proof -
    from h have r: "cache_set c now k v (Some t0) = Some (Return ?c3)"
      using cache_set_kept_when_fits by blast
    have l: "map_of (store ?c3) k = Some ?e" by (rule inserted_lookup)
    have "\<forall>t. fst (get ?c3 t k) = v"
      using get_permanent [OF l ne(1)] ne(2) by simp
    moreover have "\<forall>t. distinct (map fst (store ?c3)) \<longrightarrow>
        map_of (store (snd (cleanup ?c3 t))) k = Some ?e"
      using cleanup_keeps_permanent [OF _ l ne(1)] by blast
    ultimately show ?thesis using r l ne by blast
  qed
  have returns: "\<exists>c'. cache_set c now k v (Some t0) = Some (Return c') \<and>
            (store c' = [] \<or> (\<exists>e. map_of (store c') k = Some e \<and> val e = v \<and> expiresAt e = None))"
    if h: "evictable c \<and> serializable c \<and> k \<noteq> [] \<and> JSON_stringify v = Text s"
  proof -
    from h cache_set_returns obtain c' where r: "cache_set c now k v (Some t0) = Some (Return c')"
      by blast
    from cache_set_result [OF r] have "c' = ?c3 \<or> store c' = []" by auto
    then have "store c' = [] \<or> (\<exists>e. map_of (store c') k = Some e \<and> val e = v \<and> expiresAt e = None)"
      using ne by (auto simp: inserted_lookup)
    with r show ?thesis by blast
  qed
  have later: "\<not> isExpired e t \<and> fst (get c2 t k) = val e \<and>
      map_of (store (snd (get c2 t k))) k = Some (e\<lparr>accessedAt := t\<rparr>) \<and>
      (distinct (map fst (store c2)) \<longrightarrow> map_of (store (snd (cleanup c2 t))) k = Some e)"
    if "map_of (store c2) k = Some e \<and> expiresAt e = None" for c2 e t
    using that get_permanent [of c2 k e t] cleanup_keeps_permanent [of c2 k e t]
    by (simp add: isExpired_def)
  from present kept returns later show ?thesis by blast
qed

theorem nonpositive_ttl_never_expires_witness:
  "(0::int) \<le> 0 \<and> (- 1::int) \<le> 0 \<and>
   estimateMemoryUsage (inserted fresh_cache 5 (js ''p'') (JStr (js ''v'')) (Some 0)) = Inr 72 \<and>
   (72::int) \<le> maxMemory fresh_cache \<and>
   estimateMemoryUsage (inserted fresh_cache 5 (js ''p'') (JStr (js ''v'')) (Some (- 1))) = Inr 72 \<and>
   evictable fresh_cache \<and> serializable fresh_cache \<and>
   JSON_stringify (JStr (js ''v'')) = Text [0x22, cu CHR ''v'', 0x22] \<and>
   cache_set fresh_cache 5 (js ''p'') (JStr (js ''v'')) (Some 0) = Some (Return permanent_cache) \<and>
   cache_set fresh_cache 5 (js ''p'') (JStr (js ''v'')) (Some (- 1))
     = Some (Return (permanent_cache\<lparr>store := [(js ''p'', \<lparr> val = JStr (js ''v''), createdAt = 5,
                        accessedAt = 5, expiresAt = None, ttl = Some (- 1) \<rparr>)]\<rparr>)) \<and>
   map_of (store permanent_cache) (js ''p'')
     = Some \<lparr> val = JStr (js ''v''), createdAt = 5, accessedAt = 5, expiresAt = None, ttl = Some 0 \<rparr> \<and>
   distinct (map fst (store permanent_cache)) \<and>
   fst (get permanent_cache 999999999999 (js ''p'')) = JStr (js ''v'') \<and>
   map_of (store (snd (cleanup permanent_cache 999999999999))) (js ''p'')
     = Some \<lparr> val = JStr (js ''v''), createdAt = 5, accessedAt = 5, expiresAt = None, ttl = Some 0 \<rparr>"
proof -
  let ?e = "\<lparr> val = JStr (js ''v''), createdAt = 5, accessedAt = 5, expiresAt = None, ttl = Some 0 \<rparr>"
  have pre: "evictable fresh_cache" "serializable fresh_cache"
    "JSON_stringify (JStr (js ''v'')) = Text [0x22, cu CHR ''v'', 0x22]"
    "estimateMemoryUsage (inserted fresh_cache 5 (js ''p'') (JStr (js ''v'')) (Some 0)) = Inr 72"
    "estimateMemoryUsage (inserted fresh_cache 5 (js ''p'') (JStr (js ''v'')) (Some (- 1))) = Inr 72"
    "(72::int) \<le> maxMemory fresh_cache"
    by (simp_all add: evictable_def serializable_def fresh_cache_def json_escape_def
        high_surrogate_def low_surrogate_def inserted_def new_entry_def Let_def
        estimateMemoryUsage_def)
  have ins: "inserted fresh_cache 5 (js ''p'') (JStr (js ''v'')) (Some 0) = permanent_cache"
    "inserted fresh_cache 5 (js ''p'') (JStr (js ''v'')) (Some (- 1))
       = permanent_cache\<lparr>store := [(js ''p'', \<lparr> val = JStr (js ''v''), createdAt = 5,
                        accessedAt = 5, expiresAt = None, ttl = Some (- 1) \<rparr>)]\<rparr>"
    by (simp_all add: inserted_def new_entry_def Let_def nullish_def fresh_cache_def
        permanent_cache_def)
  have z: "(0::int) \<le> 0" by simp
  have m: "map_of (store permanent_cache) (js ''p'') = Some ?e"
    "distinct (map fst (store permanent_cache))"
    by (simp_all add: permanent_cache_def)
  note T0 = nonpositive_ttl_never_expires [OF z, of fresh_cache 5 "js ''p''" "JStr (js ''v'')"
      "[0x22, cu CHR ''v'', 0x22]"]
  have b0: "cache_set fresh_cache 5 (js ''p'') (JStr (js ''v'')) (Some 0) = Some (Return permanent_cache)"
    using cache_set_kept_when_fits [OF pre(4) pre(6)] ins(1) by simp
  have b1: "cache_set fresh_cache 5 (js ''p'') (JStr (js ''v'')) (Some (- 1))
     = Some (Return (permanent_cache\<lparr>store := [(js ''p'', \<lparr> val = JStr (js ''v''), createdAt = 5,
                        accessedAt = 5, expiresAt = None, ttl = Some (- 1) \<rparr>)]\<rparr>))"
    using cache_set_kept_when_fits [OF pre(5) pre(6)] ins(2) by simp
  have later: "fst (get permanent_cache 999999999999 (js ''p'')) = JStr (js ''v'') \<and>
     map_of (store (snd (cleanup permanent_cache 999999999999))) (js ''p'') = Some ?e"
  proof -
    have "map_of (store permanent_cache) (js ''p'') = Some ?e \<and> expiresAt ?e = None \<longrightarrow>
          fst (get permanent_cache 999999999999 (js ''p'')) = val ?e \<and>
          (distinct (map fst (store permanent_cache)) \<longrightarrow>
             map_of (store (snd (cleanup permanent_cache 999999999999))) (js ''p'') = Some ?e)"
      using T0 by blast
    moreover have "expiresAt ?e = None" "val ?e = JStr (js ''v'')" by simp_all
    ultimately show ?thesis using m by metis
  qed
  show ?thesis
    using pre b0 b1 m later by simp
qed

subsection \<open>Key patterns as globs\<close>

lemma replace_chars_Nil [simp]: "replace_chars cls r [] = []"
  by (simp add: replace_chars_def)

lemma replace_chars_Cons [simp]:
  "replace_chars cls r (x # xs) = (if cls x then r x else [x]) @ replace_chars cls r xs"
  by (simp add: replace_chars_def)

lemma replace_chars_append [simp]:
  "replace_chars cls r (xs @ ys) = replace_chars cls r xs @ replace_chars cls r ys"
  by (simp add: replace_chars_def)

lemma escaped_class_not_wildcard: "escaped_class ch \<Longrightarrow> ch \<noteq> cu CHR ''*'' \<and> ch \<noteq> cu CHR ''?''"
  by (auto simp: escaped_class_def)

lemma syntax_char_iff: "syntax_char ch \<longleftrightarrow> escaped_class ch \<or> ch = cu CHR ''*'' \<or> ch = cu CHR ''?''"
  by (auto simp: syntax_char_def escaped_class_def)

lemma glob_char_cases:
  "escaped_class ch \<Longrightarrow> glob_char ch = [0x5C, ch]"
  "ch = cu CHR ''*'' \<Longrightarrow> glob_char ch = js ''.*''"
  "ch = cu CHR ''?'' \<Longrightarrow> glob_char ch = js ''.''"
  "\<not> escaped_class ch \<Longrightarrow> ch \<noteq> cu CHR ''*'' \<Longrightarrow> ch \<noteq> cu CHR ''?'' \<Longrightarrow> glob_char ch = [ch]"
  by (simp_all add: glob_char_def escaped_class_def)

lemma escaped_char_is_glob_char:
  "replace_chars (\<lambda>ch. ch = cu CHR ''?'') (\<lambda>_. js ''.'')
     (replace_chars (\<lambda>ch. ch = cu CHR ''*'') (\<lambda>_. js ''.*'')
       (if escaped_class ch then [0x5C, ch] else [ch]))
   = glob_char ch"
  by (auto simp: glob_char_def escaped_class_def)

lemma escaped_is_glob_chars:
  "replace_chars (\<lambda>ch. ch = cu CHR ''?'') (\<lambda>_. js ''.'')
     (replace_chars (\<lambda>ch. ch = cu CHR ''*'') (\<lambda>_. js ''.*'')
       (replace_chars escaped_class (\<lambda>ch. [0x5C, ch]) p))
   = concat (map glob_char p)"
proof (induction p)
  case Nil
  then show ?case by simp
next
  case (Cons ch p)
  have "replace_chars (\<lambda>ch. ch = cu CHR ''?'') (\<lambda>_. js ''.'')
     (replace_chars (\<lambda>ch. ch = cu CHR ''*'') (\<lambda>_. js ''.*'')
       (replace_chars escaped_class (\<lambda>ch. [0x5C, ch]) (ch # p)))
     = replace_chars (\<lambda>ch. ch = cu CHR ''?'') (\<lambda>_. js ''.'')
         (replace_chars (\<lambda>ch. ch = cu CHR ''*'') (\<lambda>_. js ''.*'')
           (if escaped_class ch then [0x5C, ch] else [ch]))
       @ replace_chars (\<lambda>ch. ch = cu CHR ''?'') (\<lambda>_. js ''.'')
         (replace_chars (\<lambda>ch. ch = cu CHR ''*'') (\<lambda>_. js ''.*'')
           (replace_chars escaped_class (\<lambda>ch. [0x5C, ch]) p))"
    by (simp only: replace_chars_Cons replace_chars_append)
  also have "\<dots> = glob_char ch @ concat (map glob_char p)"
    by (simp only: escaped_char_is_glob_char Cons.IH)
  finally show ?case by simp
qed

lemma globToRegex_glob_chars: "globToRegex p = js ''^'' @ concat (map glob_char p) @ js ''$''"
  unfolding globToRegex_def Let_def by (simp only: escaped_is_glob_chars)

lemma glob_char_head: "glob_char ch = d # r \<Longrightarrow> d \<noteq> cu CHR ''*''"
  by (auto simp: glob_char_def split: if_splits)

lemma glob_chars_head:
  "concat (map glob_char p) @ js ''$'' = d # r \<Longrightarrow> d \<noteq> cu CHR ''*''"
proof (cases p)
  case Nil
  assume "concat (map glob_char p) @ js ''$'' = d # r"
  with Nil show ?thesis by auto
next
  case (Cons ch p')
  assume a: "concat (map glob_char p) @ js ''$'' = d # r"
  have "glob_char ch \<noteq> []" by (simp add: glob_char_def)
  then obtain d' r' where g: "glob_char ch = d' # r'" by (cases "glob_char ch") auto
  with a Cons have "d = d'" by simp
  with glob_char_head [OF g] show ?thesis by simp
qed

lemma parse_glob_chars:
  "parse_atoms (concat (map glob_char p) @ js ''$'') = Some (map atom_of p @ [EndOfInput])"
proof (induction p)
  case Nil
  then show ?case by simp
next
  case (Cons ch p)
  let ?rest = "concat (map glob_char p) @ js ''$''"
  have unfold: "concat (map glob_char (ch # p)) @ js ''$'' = glob_char ch @ ?rest" by simp
  consider (esc) "escaped_class ch" | (star) "ch = cu CHR ''*''" | (quest) "ch = cu CHR ''?''"
    | (lit) "\<not> escaped_class ch" "ch \<noteq> cu CHR ''*''" "ch \<noteq> cu CHR ''?''"
    by blast
  then have "parse_atoms (glob_char ch @ ?rest) = Some (atom_of ch # map atom_of p @ [EndOfInput])"
  proof cases
    case esc
    from escaped_class_not_wildcard [OF esc] esc
    have "glob_char ch = [0x5C, ch]" "atom_of ch = Lit ch" "syntax_char ch"
      by (simp_all add: glob_char_def atom_of_def syntax_char_iff)
    with Cons.IH show ?thesis by simp
  next
    case star
    then have "glob_char ch = js ''.*''" "atom_of ch = AnyStar"
      by (simp_all add: glob_char_def atom_of_def escaped_class_def)
    with Cons.IH show ?thesis by simp
  next
    case quest
    then have gc: "glob_char ch = js ''.''" "atom_of ch = AnyChar"
      by (simp_all add: glob_char_def atom_of_def escaped_class_def)
    obtain d r where dr: "?rest = d # r" by (cases ?rest) auto
    from glob_chars_head [OF dr] have "d \<noteq> cu CHR ''*''" .
    moreover from Cons.IH dr have "parse_atoms (d # r) = Some (map atom_of p @ [EndOfInput])" by simp
    ultimately have "parse_atoms (cu CHR ''.'' # d # r) = Some (AnyChar # map atom_of p @ [EndOfInput])"
      by simp
    with gc dr show ?thesis by simp
  next
    case lit
    then have "ch \<noteq> 0x5C" "ch \<noteq> cu CHR ''.''" "ch \<noteq> cu CHR ''$''"
      by (auto simp: escaped_class_def)
    moreover from lit have "glob_char ch = [ch]" "atom_of ch = Lit ch" "\<not> syntax_char ch"
      by (simp_all add: glob_char_def atom_of_def syntax_char_iff)
    ultimately show ?thesis using Cons.IH by simp
  qed
  with unfold show ?case by simp
qed

lemma RegExp_new_globToRegex:
  "RegExp_new (globToRegex p) = Some (map atom_of p @ [EndOfInput])"
  by (simp add: RegExp_new_def globToRegex_glob_chars parse_glob_chars [simplified])

lemma bex_upto_Suc:
  "(\<exists>n \<in> {0..Suc k}. P n) \<longleftrightarrow> P 0 \<or> (\<exists>m \<in> {0..k}. P (Suc m))"
proof
  assume "\<exists>n \<in> {0..Suc k}. P n"
  then obtain n where n: "n \<le> Suc k" "P n" by auto
  show "P 0 \<or> (\<exists>m \<in> {0..k}. P (Suc m))"
  proof (cases n)
    case 0
    with n show ?thesis by simp
  next
    case (Suc m)
    with n show ?thesis by auto
  qed
next
  assume "P 0 \<or> (\<exists>m \<in> {0..k}. P (Suc m))"
  then show "\<exists>n \<in> {0..Suc k}. P n" by auto
qed

lemma regex_match_star:
  "\<forall>x \<in> set s. \<not> lineTerminator x \<Longrightarrow>
   regex_match (AnyStar # r) s \<longleftrightarrow> (\<exists>n \<in> {0..length s}. regex_match r (drop n s))"
proof (induction s)
  case Nil
  then show ?case by simp
next
  case (Cons x xs)
  then have "regex_match (AnyStar # r) xs \<longleftrightarrow> (\<exists>n \<in> {0..length xs}. regex_match r (drop n xs))"
    by simp
  with Cons.prems show ?case
    by (simp add: bex_upto_Suc del: atLeastAtMost_iff)
qed

lemma regex_match_glob:
  "\<forall>x \<in> set key. \<not> lineTerminator x \<Longrightarrow>
   regex_match (map atom_of p @ [EndOfInput]) key \<longleftrightarrow> glob_match p key"
proof (induction p arbitrary: key)
  case Nil
  then show ?case by simp
next
  case (Cons ch p)
  have drop_ok: "\<forall>x \<in> set (drop n key). \<not> lineTerminator x" for n
    using Cons.prems by (auto dest: in_set_dropD)
  show ?case
  proof (cases "ch = cu CHR ''*''")
    case True
    then have ao: "atom_of ch = AnyStar" by (simp add: atom_of_def)
    have "regex_match (AnyStar # map atom_of p @ [EndOfInput]) key \<longleftrightarrow>
          (\<exists>n \<in> {0..length key}. regex_match (map atom_of p @ [EndOfInput]) (drop n key))"
      using Cons.prems by (rule regex_match_star)
    also have "\<dots> \<longleftrightarrow> (\<exists>n \<in> {0..length key}. glob_match p (drop n key))"
      using Cons.IH [OF drop_ok] by simp
    finally have "regex_match (AnyStar # map atom_of p @ [EndOfInput]) key \<longleftrightarrow>
          (\<exists>n \<in> {0..length key}. glob_match p (drop n key))" .
    with True ao show ?thesis by (simp del: regex_match.simps)
  next
    case False
    then have ao: "atom_of ch = (if ch = cu CHR ''?'' then AnyChar else Lit ch)"
      by (simp add: atom_of_def)
    show ?thesis
    proof (cases key)
      case Nil
      with False ao show ?thesis by simp
    next
      case (Cons x xs)
      with Cons.prems have ok: "\<not> lineTerminator x" "\<forall>y \<in> set xs. \<not> lineTerminator y" by auto
      from Cons.IH [OF ok(2)] False Cons ok(1) ao show ?thesis
        by auto
    qed
  qed
qed

lemma keys_nonempty_pattern:
  "p \<noteq> [] \<Longrightarrow>
   keys c (Some p) = Some (filter (regex_match (map atom_of p @ [EndOfInput])) (map fst (store c)))"
proof -
  assume "p \<noteq> []"
  moreover have "RegExp_test (map atom_of p @ [EndOfInput]) = regex_match (map atom_of p @ [EndOfInput])"
    by (rule ext) (simp add: RegExp_test_def)
  ultimately show ?thesis
    by (simp add: keys_def Let_def RegExp_new_globToRegex)
qed

text \<open>
  Claim C9 as stated, refuted. The empty pattern is falsy, so \<open>keys('')\<close> returns every
  key, here \<open>k\<close>, which the empty pattern does not match. And \<open>.\<close> in a regular
  expression without flags does not match a line terminator, so \<open>keys('a?b')\<close> returns
  neither the key \<open>a\<close>, line feed, \<open>b\<close> nor the key \<open>a\<close>, U+2028, \<open>b\<close>, both of
  which the pattern matches as a glob.
\<close>

theorem keys_empty_pattern_and_line_terminator_counterexample:
  "keys stale_cache (Some []) = Some [js ''k''] \<and> \<not> glob_match [] (js ''k'') \<and>
   map fst (store newline_cache)
     = [[cu CHR ''a'', 0x0A, cu CHR ''b''], [cu CHR ''a'', 0x2028, cu CHR ''b'']] \<and>
   keys newline_cache (Some (js ''a?b'')) = Some [] \<and>
   glob_match (js ''a?b'') [cu CHR ''a'', 0x0A, cu CHR ''b''] \<and>
   glob_match (js ''a?b'') [cu CHR ''a'', 0x2028, cu CHR ''b'']"
proof -
  have "keys stale_cache (Some []) = Some [js ''k'']"
    by (simp add: keys_def stale_cache_def)
  moreover have "keys newline_cache (Some (js ''a?b'')) = Some []"
    by (simp add: keys_nonempty_pattern newline_cache_def atom_of_def lineTerminator_def)
  moreover have "map fst (store newline_cache)
     = [[cu CHR ''a'', 0x0A, cu CHR ''b''], [cu CHR ''a'', 0x2028, cu CHR ''b'']]"
    by (simp add: newline_cache_def)
  ultimately show ?thesis by simp
qed

text \<open>
  Claim C9 as amended. For every non-empty pattern, \<open>keys(pattern)\<close> returns a selection
  of the stored keys, in table order, and for every key that contains no line terminator
  (LF, CR, U+2028, U+2029) the selection is decided by the glob rules of the
  specification: such a key is returned exactly if it matches the pattern as a whole,
  \<open>*\<close> standing for any run of characters, \<open>?\<close> for exactly one, and every other
  character, regular expression metacharacters included, for itself. For the empty
  pattern, as for an absent one, \<open>keys\<close> returns all keys. For every pattern the regular
  expression that \<open>globToRegex\<close> builds is within the modelled fragment, so \<open>keys\<close> has
  a result.
\<close>

theorem keys_pattern_is_glob:
  "(p \<noteq> [] \<longrightarrow>
      (\<exists>P. keys c (Some p) = Some (filter P (map fst (store c))) \<and>
           (\<forall>k. (\<forall>ch \<in> set k. \<not> lineTerminator ch) \<longrightarrow> P k = glob_match p k))) \<and>
   keys c (Some []) = Some (map fst (store c)) \<and>
   keys c None = Some (map fst (store c)) \<and>
   keys c pattern \<noteq> None"
proof (intro conjI impI)
  assume "p \<noteq> []"
  then have "keys c (Some p)
      = Some (filter (regex_match (map atom_of p @ [EndOfInput])) (map fst (store c)))"
    by (rule keys_nonempty_pattern)
  moreover have "\<forall>k. (\<forall>ch \<in> set k. \<not> lineTerminator ch) \<longrightarrow>
      regex_match (map atom_of p @ [EndOfInput]) k = glob_match p k"
    using regex_match_glob by blast
  ultimately show "\<exists>P. keys c (Some p) = Some (filter P (map fst (store c))) \<and>
           (\<forall>k. (\<forall>ch \<in> set k. \<not> lineTerminator ch) \<longrightarrow> P k = glob_match p k)"
    by blast
next
  show "keys c (Some []) = Some (map fst (store c))" by (simp add: keys_def)
next
  show "keys c None = Some (map fst (store c))" by (simp add: keys_def)
next
  show "keys c pattern \<noteq> None"
  proof (cases pattern)
    case None
    then show ?thesis by (simp add: keys_def)
  next
    case (Some q)
    show ?thesis
    proof (cases "q = []")
      case True
      with Some show ?thesis by (simp add: keys_def)
    next
      case False
      with Some show ?thesis by (simp add: keys_nonempty_pattern)
    qed
  qed
qed

lemma glob_filter_from_keys:
  assumes "\<exists>P. keys c (Some p) = Some (filter P ks) \<and>
             (\<forall>k. (\<forall>ch \<in> set k. \<not> lineTerminator ch) \<longrightarrow> P k = glob_match p k)"
    and "\<forall>k \<in> set ks. \<forall>ch \<in> set k. \<not> lineTerminator ch"
    and "keys c (Some p) = Some r"
  shows "filter (glob_match p) ks = r"
proof -
  from assms(1) obtain P where P: "keys c (Some p) = Some (filter P ks)"
    and agree: "\<forall>k. (\<forall>ch \<in> set k. \<not> lineTerminator ch) \<longrightarrow> P k = glob_match p k"
    by blast
  have "filter P ks = filter (glob_match p) ks"
    by (rule filter_cong [OF refl]) (use agree assms(2) in blast)
  with P assms(3) show ?thesis by simp
qed

theorem keys_pattern_is_glob_witness:
  "map fst (store pattern_cache)
     = [js ''user:1'', js ''user:22'', js ''post:1'', js ''a.b'', js ''axb''] \<and>
   filter lineTerminator (concat (map fst (store pattern_cache))) = [] \<and>
   keys pattern_cache (Some (js ''user:*'')) = Some [js ''user:1'', js ''user:22''] \<and>
   filter (glob_match (js ''user:*'')) (map fst (store pattern_cache))
     = [js ''user:1'', js ''user:22''] \<and>
   keys pattern_cache (Some (js ''user:?'')) = Some [js ''user:1''] \<and>
   filter (glob_match (js ''user:?'')) (map fst (store pattern_cache)) = [js ''user:1''] \<and>
   keys pattern_cache (Some (js ''a.b'')) = Some [js ''a.b''] \<and>
   filter (glob_match (js ''a.b'')) (map fst (store pattern_cache)) = [js ''a.b'']"
proof -
  have ks: "map fst (store pattern_cache)
      = [js ''user:1'', js ''user:22'', js ''post:1'', js ''a.b'', js ''axb'']"
    by (simp add: pattern_cache_def)
  have ok: "\<forall>k \<in> set (map fst (store pattern_cache)). \<forall>ch \<in> set k. \<not> lineTerminator ch"
    by (simp add: ks lineTerminator_def)
  have nl: "filter lineTerminator (concat (map fst (store pattern_cache))) = []"
    by (simp add: ks lineTerminator_def)
  have e1: "keys pattern_cache (Some (js ''user:*'')) = Some [js ''user:1'', js ''user:22'']"
    by (simp add: keys_nonempty_pattern ks atom_of_def lineTerminator_def)
  have e2: "keys pattern_cache (Some (js ''user:?'')) = Some [js ''user:1'']"
    by (simp add: keys_nonempty_pattern ks atom_of_def lineTerminator_def)
  have e3: "keys pattern_cache (Some (js ''a.b'')) = Some [js ''a.b'']"
    by (simp add: keys_nonempty_pattern ks atom_of_def lineTerminator_def)
  have g1: "filter (glob_match (js ''user:*'')) (map fst (store pattern_cache))
      = [js ''user:1'', js ''user:22'']"
    using keys_pattern_is_glob [of "js ''user:*''" pattern_cache] ok e1
    by (intro glob_filter_from_keys) simp_all
  have g2: "filter (glob_match (js ''user:?'')) (map fst (store pattern_cache)) = [js ''user:1'']"
    using keys_pattern_is_glob [of "js ''user:?''" pattern_cache] ok e2
    by (intro glob_filter_from_keys) simp_all
  have g3: "filter (glob_match (js ''a.b'')) (map fst (store pattern_cache)) = [js ''a.b'']"
    using keys_pattern_is_glob [of "js ''a.b''" pattern_cache] ok e3
    by (intro glob_filter_from_keys) simp_all
  from ks nl e1 e2 e3 g1 g2 g3 show ?thesis by blast
qed

subsection \<open>The capacity bound where no key is empty\<close>

lemma length_update:
  "length (AList.update k v al) = (if k \<in> fst ` set al then length al else Suc (length al))"
  by (induction al) auto

lemma checkMemoryLoop_maxSize:
  assumes "checkMemoryLoop m c = Some c'"
  shows "maxSize c' = maxSize c"
  using assms
proof (induct rule: checkMemoryLoop.raw_induct [rotated, consumes 1])
  case (1 loop m c c')
  show ?case
  proof (cases "maxMemory c < m \<and> 0 < length (store c)")
    case True
    with 1(2) have "loop m (evictOne c) = Some c'" by simp
    from 1(1) [OF this] show ?thesis by simp
  next
    case False
    with 1(2) show ?thesis by auto
  qed
qed

lemma checkMemoryLoop_evictable:
  assumes "checkMemoryLoop m c = Some c'"
  shows "evictable c \<longrightarrow> evictable c'"
  using assms
proof (induct rule: checkMemoryLoop.raw_induct [rotated, consumes 1])
  case (1 loop m c c')
  show ?case
  proof (cases "maxMemory c < m \<and> 0 < length (store c)")
    case True
    with 1(2) have "loop m (evictOne c) = Some c'" by simp
    from 1(1) [OF this] show ?thesis by (simp add: evictOne_evictable)
  next
    case False
    with 1(2) show ?thesis by auto
  qed
qed

lemma inserted_length:
  assumes "evictable c" and "1 \<le> maxSize c" and "int (length (store c)) \<le> maxSize c"
  shows "int (length (store (inserted c now key v ttl_arg))) \<le> maxSize c"
proof (cases "map_of (store c) key = None")
  case False
  then obtain e where e: "map_of (store c) key = Some e" by auto
  then have "key \<in> fst ` set (store c)" by (metis map_of_eq_None_iff option.distinct(1))
  with e assms(3) show ?thesis
    by (simp add: inserted_def Let_def length_update)
next
  case absent: True
  then have notin: "key \<notin> fst ` set (store c)" by (simp add: map_of_eq_None_iff)
  show ?thesis
  proof (cases "int (length (store c)) \<ge> maxSize c")
    case False
    with absent notin show ?thesis by (simp add: inserted_def Let_def length_update)
  next
    case True
    with assms(2) have ne: "store c \<noteq> []" by auto
    have less: "length (store (evictOne c)) < length (store c)"
      using assms(1) ne by (rule evictOne_shrinks)
    have "fst ` set (store (evictOne c)) \<subseteq> fst ` set (store c)"
      by (auto simp: evictOne_def dom_delete)
    with notin have "key \<notin> fst ` set (store (evictOne c))" by blast
    with absent True less assms(3) show ?thesis
      by (simp add: inserted_def Let_def length_update)
  qed
qed

text \<open>
  What remains of the capacity bound: on a cache with \<open>maxSize \<ge> 1\<close> that is within
  its bound, stores nothing under the empty key and (under LRU) has an order index that
  matches its table, a \<open>set\<close> with a non-empty key that returns leaves the table within
  the bound, and leaves these conditions in place for the next call.
\<close>

lemma capacity_bound_without_empty_key:
  assumes "evictable c" and "key \<noteq> []" and "1 \<le> maxSize c"
    and "int (length (store c)) \<le> maxSize c"
    and "cache_set c now key v ttl_arg = Some (Return c')"
  shows "int (cache_size c') \<le> maxSize c' \<and> maxSize c' = maxSize c \<and> evictable c'"
proof -
  let ?c3 = "inserted c now key v ttl_arg"
  from assms(5) have r: "checkMemoryLimits ?c3 = Some (Return c')" by (simp add: cache_set_inserted)
  then obtain m where "estimateMemoryUsage ?c3 = Inr m" and loop: "checkMemoryLoop m ?c3 = Some c'"
    by (cases "estimateMemoryUsage ?c3") (auto simp: checkMemoryLimits_def)
  have ms: "maxSize c' = maxSize c"
    using checkMemoryLoop_maxSize [OF loop] by (simp add: inserted_def Let_def)
  have ev3: "evictable ?c3" using assms(1,2) by (rule inserted_evictable)
  have ev': "evictable c'" using checkMemoryLoop_evictable [OF loop] ev3 by simp
  from checkMemoryLoop_result [OF loop] have "c' = ?c3 \<or> store c' = []" by auto
  then show ?thesis
  proof
    assume "c' = ?c3"
    with inserted_length [OF assms(1,3,4)] ms ev' show ?thesis by (simp add: cache_size_def)
  next
    assume e: "store c' = []"
    with assms(3) ms ev' show ?thesis by (simp add: cache_size_def)
  qed
qed

end
